theory Spec2Isabelle
  imports Main "HOL-Library.AList"
begin

section \<open>The code-element model of fortpy (src/fortpy/elements.py)\<close>

text \<open>
  The classes of \<^verbatim>\<open>elements.py\<close> are Python classes whose instances refer to
  each other (an element to its parent, a module to the elements it owns). An instance
  is a record \<open>obj\<close> with a class tag, instances live in a store \<open>heap\<close> that maps a
  reference to the instance it denotes, and a reference that may be \<^verbatim>\<open>None\<close> is a
  \<open>ref option\<close>. A Python dict is an association list, iterated in list order.
  A method that only touches the fields of \<^verbatim>\<open>self\<close> is a function on \<open>obj\<close>; a
  method that follows references takes the store. An exception is a value of \<open>error\<close>.
  An attribute whose Python name starts with an underscore is written with the
  prefix \<open>u_\<close> (\<^verbatim>\<open>_lines\<close> is \<open>u_lines\<close>).
\<close>

subsection \<open>Strings\<close>

text \<open>\<^verbatim>\<open>str.lower()\<close> on byte strings: the letters A to Z are mapped, nothing else.\<close>

definition lower_char :: "char \<Rightarrow> char" where
  "lower_char c =
     (case map_of (zip ''ABCDEFGHIJKLMNOPQRSTUVWXYZ'' ''abcdefghijklmnopqrstuvwxyz'') c of
        Some d \<Rightarrow> d
      | None \<Rightarrow> c)"

definition lower :: "string \<Rightarrow> string" where
  "lower s = map lower_char s"

text \<open>\<^verbatim>\<open>s.split(sep)\<close> for a separator of one character.\<close>

fun split_on :: "char \<Rightarrow> string \<Rightarrow> string list" where
  "split_on sep [] = [[]]"
| "split_on sep (c # cs) =
     (if c = sep then [] # split_on sep cs
      else (case split_on sep cs of
              [] \<Rightarrow> [[c]]
            | w # ws \<Rightarrow> (c # w) # ws))"

text \<open>\<^verbatim>\<open>sep.join(xs)\<close>.\<close>

fun join :: "string \<Rightarrow> string list \<Rightarrow> string" where
  "join sep [] = []"
| "join sep [x] = x"
| "join sep (x # y # ys) = x @ sep @ join sep (y # ys)"

text \<open>\<^verbatim>\<open>p in s\<close> for strings: \<open>p\<close> occurs in \<open>s\<close>.\<close>

fun starts_with :: "string \<Rightarrow> string \<Rightarrow> bool" where
  "starts_with [] s = True"
| "starts_with (p # ps) [] = False"
| "starts_with (p # ps) (c # cs) = (p = c \<and> starts_with ps cs)"

fun occurs_in :: "string \<Rightarrow> string \<Rightarrow> bool" where
  "occurs_in p [] = starts_with p []"
| "occurs_in p (c # cs) = (starts_with p (c # cs) \<or> occurs_in p cs)"

subsection \<open>Classes, instances and the store\<close>

datatype error = TypeError | AttributeError | IndexError | KeyError

type_synonym ref = nat

datatype pyclass =
    Object | CodeElement | ValueElement | Dependency | Decoratable | Executable
  | Function | Subroutine | TypeExecutable | CustomType | Module

text \<open>The method resolution order of each class, as its \<^verbatim>\<open>class\<close> statement gives it.\<close>

fun mro :: "pyclass \<Rightarrow> pyclass list" where
  "mro Object = [Object]"
| "mro CodeElement = [CodeElement, Object]"
| "mro ValueElement = [ValueElement, CodeElement, Object]"
| "mro Dependency = [Dependency, Object]"
| "mro Decoratable = [Decoratable, Object]"
| "mro Executable = [Executable, ValueElement, CodeElement, Decoratable, Object]"
| "mro Function = [Function, Executable, ValueElement, CodeElement, Decoratable, Object]"
| "mro Subroutine = [Subroutine, Executable, ValueElement, CodeElement, Decoratable, Object]"
| "mro TypeExecutable = [TypeExecutable, CodeElement, Object]"
| "mro CustomType = [CustomType, CodeElement, Decoratable, Object]"
| "mro Module = [Module, CodeElement, Decoratable, Object]"

record DocElement =
  contents :: string
  doctype :: string
  attributes :: "(string \<times> string) list"
  references :: "string list"

text \<open>
  \<open>dependencies\<close> is a list of strings in a \<^verbatim>\<open>Module\<close> and a dict from a name to the
  list of the \<^verbatim>\<open>Dependency\<close> instances of that name in an \<^verbatim>\<open>Executable\<close>.
\<close>

datatype pydeps = DepList "string list" | DepDict "(string \<times> ref list) list"

text \<open>
  One record holds the attributes of every class that the functions below read or
  write. \<open>u_name\<close> is \<^verbatim>\<open>Dependency._name\<close>. The attributes left out (\<^verbatim>\<open>groups\<close>,
  \<^verbatim>\<open>dtype\<close>, \<^verbatim>\<open>kind\<close>, \<^verbatim>\<open>contents\<close>, \<^verbatim>\<open>incomplete\<close>, \<^verbatim>\<open>filepath\<close>, ...) are read
  by none of them.
\<close>

record obj =
  cls :: pyclass
  name :: string
  u_name :: string
  modifiers :: "string list"
  docstring :: "DocElement list"
  parent :: "ref option"
  start :: int
  "end" :: int
  u_full_name :: "string option"
  u_module :: "ref option"
  docstart :: int
  docend :: int
  members :: "(string \<times> ref) list"
  types :: "(string \<times> ref) list"
  executables :: "(string \<times> ref) list"
  dependencies :: pydeps
  publics :: "string list"
  paramorder :: "string list"
  u_parameters :: "(string \<times> ref) list"
  u_assignments :: "string list"
  refstring :: string
  u_lines :: "string list"
  u_chars :: "int list"
  u_contains_index :: "int option"

type_synonym heap = "ref \<Rightarrow> obj"

definition isinstance :: "obj \<Rightarrow> pyclass \<Rightarrow> bool" where
  "isinstance x c = (c \<in> set (mro (cls x)))"

text \<open>
  \<^verbatim>\<open>CodeElement.__init__\<close> with \<^verbatim>\<open>clean_mods\<close>; the other attributes get the values
  the constructors of the subclasses give them (\<^verbatim>\<open>0\<close>, \<^verbatim>\<open>[]\<close>, \<^verbatim>\<open>{}\<close>, \<^verbatim>\<open>""\<close>,
  \<^verbatim>\<open>None\<close>).
\<close>

definition clean_mods :: "string list \<Rightarrow> string list" where
  "clean_mods mods = (if [] \<in> set mods then remove1 [] mods else mods)"

definition CodeElement_init :: "pyclass \<Rightarrow> string \<Rightarrow> string list option \<Rightarrow> ref option \<Rightarrow> obj" where
  "CodeElement_init c nm mods par =
     \<lparr> cls = c, name = nm, u_name = [],
       modifiers = (case mods of None \<Rightarrow> [] | Some ms \<Rightarrow> clean_mods ms),
       docstring = [], parent = par, start = 0, end = 0,
       u_full_name = None, u_module = None, docstart = 0, docend = 0,
       members = [], types = [], executables = [], dependencies = DepDict [],
       publics = [], paramorder = [], u_parameters = [], u_assignments = [],
       refstring = [], u_lines = [], u_chars = [], u_contains_index = None \<rparr>"

subsection \<open>Docstrings: \<^verbatim>\<open>DocElement.pointsto\<close> and \<^verbatim>\<open>CodeElement.overwrite_docs\<close>\<close>

definition pointsto :: "DocElement \<Rightarrow> string option" where
  "pointsto d =
     (case map_of (attributes d) ''name'' of
        Some n \<Rightarrow> Some (lower n)
      | None \<Rightarrow> None)"

text \<open>
  The loop of \<^verbatim>\<open>overwrite_docs\<close>: the first entry with the tag and the target of
  \<open>doc\<close> is deleted, and the loop stops there (\<^verbatim>\<open>del self.docstring[i]; break\<close>).
\<close>

fun del_first_match :: "DocElement \<Rightarrow> DocElement list \<Rightarrow> DocElement list" where
  "del_first_match doc [] = []"
| "del_first_match doc (d # ds) =
     (if doctype d = doctype doc \<and> pointsto d = pointsto doc then ds
      else d # del_first_match doc ds)"

definition overwrite_docs :: "obj \<Rightarrow> DocElement \<Rightarrow> obj" where
  "overwrite_docs self doc =
     self\<lparr>docstring := del_first_match doc (docstring self) @ [doc]\<rparr>"

definition doc_key :: "DocElement \<Rightarrow> string \<times> string option" where
  "doc_key d = (doctype d, pointsto d)"

subsection \<open>\<^verbatim>\<open>Decoratable.find_section\<close>\<close>

text \<open>
  \<^verbatim>\<open>hasattr(self, "start")\<close> and \<^verbatim>\<open>hasattr(self, "end")\<close> hold for the instances of
  \<^verbatim>\<open>CodeElement\<close>, whose constructor sets both.
\<close>

definition find_section :: "obj \<Rightarrow> int \<Rightarrow> string option" where
  "find_section self charindex =
     (let result =
        (if isinstance self CodeElement \<and> isinstance self CodeElement then
           (if charindex > docend self \<and> charindex - start self < 8 then Some ''signature''
            else if charindex \<ge> start self \<and> charindex \<le> end self then Some ''body''
            else None)
         else None)
      in if result = None \<and> charindex \<ge> docstart self \<and> charindex \<le> docend self
         then Some ''docstring''
         else result)"

subsection \<open>\<^verbatim>\<open>Executable.get_parameter\<close>\<close>

definition get_parameter :: "obj \<Rightarrow> int \<Rightarrow> ref option" where
  "get_parameter self index =
     (if index > 0 \<and> index < int (length (paramorder self)) then
        (let key = paramorder self ! nat index
         in if map_of (u_parameters self) key \<noteq> None
            then map_of (u_parameters self) key
            else None)
      else None)"

subsection \<open>\<^verbatim>\<open>CodeElement.warn\<close> and \<^verbatim>\<open>Module.warn\<close>\<close>

text \<open>
  \<^verbatim>\<open>has_docstring\<close> is a property: reading it gives a bool (the docstring is a list,
  never \<^verbatim>\<open>None\<close>, in this model). \<^verbatim>\<open>warn\<close> then calls that bool
  (\<^verbatim>\<open>self.has_docstring()\<close>), and calling a bool raises \<^verbatim>\<open>TypeError\<close>.
\<close>

definition has_docstring :: "obj \<Rightarrow> bool" where
  "has_docstring self = True"

definition call_bool :: "bool \<Rightarrow> error + bool" where
  "call_bool b = Inl TypeError"

definition CodeElement_warn :: "obj \<Rightarrow> string list \<Rightarrow> error + string list" where
  "CodeElement_warn self collection =
     (case call_bool (has_docstring self) of
        Inl e \<Rightarrow> Inl e
      | Inr b \<Rightarrow>
          if \<not> b then Inr (collection @ [''WARNING: no docstring on code element '' @ name self])
          else Inr collection)"

text \<open>
  The classes whose body defines \<^verbatim>\<open>warn\<close>, and the lookup of
  \<^verbatim>\<open>super(after, self).warn\<close>: the first class that defines it among those that
  follow \<open>after\<close> in the method resolution order of the class of \<^verbatim>\<open>self\<close>.
\<close>

fun defines_warn :: "pyclass \<Rightarrow> bool" where
  "defines_warn CodeElement = True"
| "defines_warn Module = True"
| "defines_warn c = False"

definition super_warn :: "pyclass \<Rightarrow> obj \<Rightarrow> pyclass option" where
  "super_warn after self = find defines_warn (tl (dropWhile (\<lambda>c. c \<noteq> after) (mro (cls self))))"

definition Module_warn :: "obj \<Rightarrow> string list \<Rightarrow> error + string list" where
  "Module_warn self collection =
     (case super_warn CodeElement self of
        None \<Rightarrow> Inl AttributeError
      | Some c \<Rightarrow>
          (case CodeElement_warn self collection of
             Inl e \<Rightarrow> Inl e
           | Inr coll \<Rightarrow>
               if ''implicit none'' \<notin> set (modifiers self)
               then Inr (coll @ [''WARNING: implicit none not set in '' @ name self])
               else Inr coll))"

text \<open>\<^verbatim>\<open>element.warn(collection)\<close>: the method the class of the element resolves to.\<close>

definition warn :: "obj \<Rightarrow> string list \<Rightarrow> error + string list" where
  "warn self collection =
     (case find defines_warn (mro (cls self)) of
        None \<Rightarrow> Inl AttributeError
      | Some c \<Rightarrow> if c = Module then Module_warn self collection
                  else CodeElement_warn self collection)"

subsection \<open>Instances used as test inputs\<close>

definition short_type :: obj where
  "short_type = (CodeElement_init CustomType ''t'' None None)\<lparr>start := 10, end := 100\<rparr>"

definition two_params :: obj where
  "two_params = (CodeElement_init Subroutine ''s'' None None)
     \<lparr>paramorder := [''a'', ''b''], u_parameters := [(''a'', 1), (''b'', 2)]\<rparr>"

definition doc_a :: DocElement where
  "doc_a = \<lparr>contents = ''first'', doctype = ''parameter'',
            attributes = [(''name'', ''N'')], references = []\<rparr>"

definition doc_b :: DocElement where
  "doc_b = \<lparr>contents = ''second'', doctype = ''parameter'',
            attributes = [(''name'', ''n'')], references = []\<rparr>"

definition doc_s :: DocElement where
  "doc_s = \<lparr>contents = ''sum'', doctype = ''summary'', attributes = [], references = []\<rparr>"

subsection \<open>Lines and offsets: \<^verbatim>\<open>Module.linenum\<close> and \<^verbatim>\<open>Module.charindex\<close>\<close>

text \<open>
  Subscripting a Python list with an integer: \<^verbatim>\<open>xs[i]\<close> reads position \<open>i\<close>, or
  position \<open>len(xs) + i\<close> for \<open>i\<close> below zero, and raises \<^verbatim>\<open>IndexError\<close> outside
  \<open>- len(xs) \<le> i < len(xs)\<close>.
\<close>

definition py_index :: "'a list \<Rightarrow> int \<Rightarrow> error + 'a" where
  "py_index xs i =
     (if 0 \<le> i \<and> i < int (length xs) then Inr (xs ! nat i)
      else if i < 0 \<and> - int (length xs) \<le> i then Inr (xs ! nat (int (length xs) + i))
      else Inl IndexError)"

text \<open>
  What \<^verbatim>\<open>linenum\<close> returns: a list of two integers, or the integer \<^verbatim>\<open>-1\<close> that
  \<^verbatim>\<open>result\<close> starts with.
\<close>

datatype pyval = PyInt int | PyList "int list"

text \<open>\<^verbatim>\<open>self._chars[-1] -= 1\<close>; the list is never empty, \<^verbatim>\<open>split\<close> gives a line.\<close>

fun dec_last :: "int list \<Rightarrow> int list" where
  "dec_last [] = []"
| "dec_last [x] = [x - 1]"
| "dec_last (x # y # ys) = x # dec_last (y # ys)"

text \<open>The loop that replaces each count by the running total.\<close>

fun running_total :: "int \<Rightarrow> int list \<Rightarrow> int list" where
  "running_total tot [] = []"
| "running_total tot (c # cs) = (tot + c) # running_total (tot + c) cs"

definition index_text :: "obj \<Rightarrow> obj" where
  "index_text self =
     (let ls = split_on CHR 0x0A (refstring self);
          cs = dec_last (map (\<lambda>x. int (length x) + 1) ls)
      in self\<lparr>u_lines := ls, u_chars := running_total 0 cs\<rparr>)"

text \<open>
  The search loop of \<^verbatim>\<open>linenum\<close>, from position \<open>i\<close> on: it stops at the first
  position whose entry of \<^verbatim>\<open>_chars\<close> is at least \<open>index\<close>.
\<close>

fun linenum_loop :: "int \<Rightarrow> int list \<Rightarrow> nat \<Rightarrow> pyval" where
  "linenum_loop index [] i = PyInt (- 1)"
| "linenum_loop index (c # cs) i =
     (if index \<le> c then PyList [int i, c - index] else linenum_loop index cs (Suc i))"

definition linenum :: "obj \<Rightarrow> int \<Rightarrow> pyval \<times> obj" where
  "linenum self index =
     (let s1 = (if length (u_lines self) = 0 \<and> refstring self \<noteq> [] then index_text self
                else self)
      in if length (u_lines s1) > 0 then (linenum_loop index (u_chars s1) 0, s1)
         else (PyList [- 1, - 1], s1))"

definition charindex :: "obj \<Rightarrow> int \<Rightarrow> int \<Rightarrow> error + (int \<times> obj)" where
  "charindex self line column =
     (let s1 = (if length (u_lines self) = 0 then snd (linenum self 1) else self)
      in case py_index (u_chars s1) (line - 1) of
           Inl e \<Rightarrow> Inl e
         | Inr c \<Rightarrow> Inr (c + column, s1))"

text \<open>
  The spec's reading of the second component of \<^verbatim>\<open>linenum\<close>, for comparison: the
  offset of the character within line \<open>i\<close>, counted from the end of the line before.
\<close>

definition offset_within_line :: "int list \<Rightarrow> nat \<Rightarrow> int \<Rightarrow> int" where
  "offset_within_line cs i index = index - (if i = 0 then 0 else cs ! (i - 1))"

definition one_line_module :: obj where
  "one_line_module =
     index_text ((CodeElement_init Module ''m'' None None)\<lparr>refstring := ''abcdef''\<rparr>)"

definition two_line_module :: obj where
  "two_line_module =
     (CodeElement_init Module ''m'' None None)\<lparr>refstring := ''abc'' @ [CHR 0x0A] @ ''defgh''\<rparr>"

subsection \<open>The boundary: \<^verbatim>\<open>CodeElement.embedded\<close> and \<^verbatim>\<open>Module.contains_index\<close>\<close>

text \<open>\<^verbatim>\<open>not isinstance(self.parent, Module)\<close>; \<^verbatim>\<open>None\<close> is no instance of a class.\<close>

definition embedded :: "heap \<Rightarrow> obj \<Rightarrow> bool" where
  "embedded h x = (case parent x of None \<Rightarrow> True | Some p \<Rightarrow> \<not> isinstance (h p) Module)"

text \<open>
  The first loop of \<^verbatim>\<open>contains_index\<close>, over the entries of \<^verbatim>\<open>self.types\<close> (a dict
  has one entry for each key, so going through the keys and looking each one up
  visits the entries in order).
\<close>

fun max_t_loop :: "heap \<Rightarrow> (string \<times> ref) list \<Rightarrow> int \<Rightarrow> int" where
  "max_t_loop h [] max_t = max_t"
| "max_t_loop h ((tkey, t) # ts) max_t =
     max_t_loop h ts
       (if end (h t) > max_t \<and> \<not> embedded h (h t) then end (h t) else max_t)"

text \<open>
  The second loop, with \<open>i\<close> the counter and \<open>n\<close> the number of rounds left
  (\<^verbatim>\<open>max_i - i\<close>): it looks at \<^verbatim>\<open>self._lines[start + i]\<close> and stops at the first line
  with the keyword. The result is the new value of \<^verbatim>\<open>self._contains_index\<close>.
\<close>

fun scan_contains :: "string list \<Rightarrow> int \<Rightarrow> nat \<Rightarrow> nat \<Rightarrow> error + int option" where
  "scan_contains ls first i 0 = Inr None"
| "scan_contains ls first i (Suc n) =
     (case py_index ls (first + int i) of
        Inl e \<Rightarrow> Inl e
      | Inr l \<Rightarrow>
          if occurs_in ''contains'' (lower l) then Inr (Some (first + int i))
          else scan_contains ls first (Suc i) n)"

text \<open>
  \<^verbatim>\<open>self.linenum(max_t)[0]\<close> subscripts what \<^verbatim>\<open>linenum\<close> returns: the integer
  \<^verbatim>\<open>-1\<close> cannot be subscripted.
\<close>

definition subscript0 :: "pyval \<Rightarrow> error + int" where
  "subscript0 v = (case v of PyInt n \<Rightarrow> Inl TypeError | PyList l \<Rightarrow> py_index l 0)"

definition contains_index :: "heap \<Rightarrow> ref \<Rightarrow> error + (int \<times> heap)" where
  "contains_index h self =
     (case u_contains_index (h self) of
        Some c \<Rightarrow> Inr (c, h)
      | None \<Rightarrow>
          (let max_t = max_t_loop h (types (h self)) 0;
               r = linenum (h self) max_t;
               s1 = snd r
           in case subscript0 (fst r) of
                Inl e \<Rightarrow> Inl e
              | Inr first \<Rightarrow>
                  (let max_i = (if max_t > 0 then 10 else int (length (u_lines s1)))
                   in case scan_contains (u_lines s1) first 0 (nat max_i) of
                        Inl e \<Rightarrow> Inl e
                      | Inr found \<Rightarrow>
                          (let c = (case found of
                                      Some c \<Rightarrow> c
                                    | None \<Rightarrow> int (length (u_lines s1)) - 1)
                           in Inr (c, h(self := s1\<lparr>u_contains_index := Some c\<rparr>))))))"

subsection \<open>Shifting offsets: \<^verbatim>\<open>Module.update_elements\<close>\<close>

text \<open>
  \<^verbatim>\<open>hasattr(self, "docstart")\<close> holds for the instances of \<^verbatim>\<open>Decoratable\<close>, whose
  constructor sets \<^verbatim>\<open>docstart\<close> and \<^verbatim>\<open>docend\<close>; on any other instance, reading
  \<^verbatim>\<open>docstart\<close> raises \<^verbatim>\<open>AttributeError\<close>.
\<close>

definition absstart :: "obj \<Rightarrow> int" where
  "absstart self =
     (if isinstance self Decoratable \<and> docstart self > 0 then docstart self else start self)"

definition u_update_char_check :: "obj \<Rightarrow> int \<Rightarrow> int \<Rightarrow> error + bool" where
  "u_update_char_check element target docdelta =
     (if docdelta \<noteq> 0 then
        (if \<not> isinstance element Decoratable then Inl AttributeError
         else if docstart element \<le> target \<and> docend element \<ge> target - docdelta then Inr True
         else Inr (absstart element > target))
      else Inr (absstart element > target))"

definition u_element_charfix :: "obj \<Rightarrow> int \<Rightarrow> error + obj" where
  "u_element_charfix element charcount =
     (if \<not> isinstance element Decoratable then Inl AttributeError
      else Inr (element\<lparr>start := start element + charcount,
                        docstart := docstart element + charcount,
                        end := end element + charcount,
                        docend := docend element + charcount\<rparr>))"

text \<open>
  The loop over \<^verbatim>\<open>self.types\<close>, which is also the loop over \<^verbatim>\<open>self.executables\<close>,
  and the loop over \<^verbatim>\<open>self.members\<close>.
\<close>

fun charfix_loop :: "heap \<Rightarrow> (string \<times> ref) list \<Rightarrow> int \<Rightarrow> int \<Rightarrow> int \<Rightarrow> error + heap" where
  "charfix_loop h [] target docdelta charcount = Inr h"
| "charfix_loop h ((k, r) # es) target docdelta charcount =
     (case u_update_char_check (h r) target docdelta of
        Inl e \<Rightarrow> Inl e
      | Inr b \<Rightarrow>
          if b then
            (case u_element_charfix (h r) charcount of
               Inl e \<Rightarrow> Inl e
             | Inr x \<Rightarrow> charfix_loop (h(r := x)) es target docdelta charcount)
          else charfix_loop h es target docdelta charcount)"

fun members_loop :: "heap \<Rightarrow> (string \<times> ref) list \<Rightarrow> int \<Rightarrow> int \<Rightarrow> heap" where
  "members_loop h [] target charcount = h"
| "members_loop h ((k, r) # es) target charcount =
     members_loop
       (if start (h r) > target
        then h(r := (h r)\<lparr>start := start (h r) + charcount, end := end (h r) + charcount\<rparr>)
        else h)
       es target charcount"

definition update_elements :: "heap \<Rightarrow> ref \<Rightarrow> int \<Rightarrow> int \<Rightarrow> int \<Rightarrow> int \<Rightarrow> error + heap" where
  "update_elements h self line column charcount docdelta =
     (case charindex (h self) line column of
        Inl e \<Rightarrow> Inl e
      | Inr (ci, s1) \<Rightarrow>
          (let target = ci + charcount
           in case contains_index (h(self := s1)) self of
                Inl e \<Rightarrow> Inl e
              | Inr (boundary, h2) \<Rightarrow>
                  if line < boundary then
                    (case charfix_loop h2 (types (h2 self)) target docdelta charcount of
                       Inl e \<Rightarrow> Inl e
                     | Inr h3 \<Rightarrow>
                         (let h4 = members_loop h3 (members (h3 self)) target charcount
                          in Inr (h4(self := (h4 self)\<lparr>u_contains_index := None\<rparr>))))
                  else charfix_loop h2 (executables (h2 self)) target docdelta charcount))"


text \<open>What a shift by \<open>c\<close> does to the span of an element, and a span left alone.\<close>

definition shifted_by :: "int \<Rightarrow> obj \<Rightarrow> obj \<Rightarrow> bool" where
  "shifted_by c x y = (start y = start x + c \<and> end y = end x + c)"

definition span_kept :: "obj \<Rightarrow> obj \<Rightarrow> bool" where
  "span_kept x y = (start y = start x \<and> end y = end x)"


text \<open>Two states of an instance that agree on its class, its offsets and its collections.\<close>

definition same_layout :: "obj \<Rightarrow> obj \<Rightarrow> bool" where
  "same_layout x y =
     (cls y = cls x \<and> start y = start x \<and> end y = end x \<and> docstart y = docstart x \<and>
      docend y = docend x \<and> types y = types x \<and> members y = members x \<and>
      executables y = executables x \<and> parent y = parent x)"


text \<open>
  A module of seven lines with a member before and after its type, the boundary keyword
  on the fifth line and a subroutine after it; the store holds the module at 0, the
  type at 5, the members at 2 and 3 and the subroutine at 4.
\<close>

definition edit_module :: obj where
  "edit_module = (CodeElement_init Module ''m'' None None)
     \<lparr> refstring := ''integer a'' @ [CHR 0x0A] @ ''type t'' @ [CHR 0x0A] @ ''end type''
          @ [CHR 0x0A] @ ''integer b'' @ [CHR 0x0A] @ ''contains'' @ [CHR 0x0A] @ ''sub s''
          @ [CHR 0x0A] @ ''end'',
       end := 54,
       types := [(''t'', 5)], members := [(''a'', 2), (''b'', 3)],
       executables := [(''s'', 4)] \<rparr>"

definition edit_heap :: heap where
  "edit_heap = (\<lambda>r. CodeElement_init Object [] None None)
     (0 := edit_module,
      5 := (CodeElement_init CustomType ''t'' None (Some 0))\<lparr>start := 10, end := 25\<rparr>,
      2 := (CodeElement_init ValueElement ''a'' None (Some 0))\<lparr>start := 0, end := 8\<rparr>,
      3 := (CodeElement_init ValueElement ''b'' None (Some 0))\<lparr>start := 26, end := 34\<rparr>,
      4 := (CodeElement_init Subroutine ''s'' None (Some 0))\<lparr>start := 45, end := 53\<rparr>)"

subsection \<open>\<^verbatim>\<open>CodeElement.full_name\<close>\<close>

text \<open>
  The \<^verbatim>\<open>while current is not None\<close> loop of \<^verbatim>\<open>full_name\<close>. It follows the
  \<^verbatim>\<open>parent\<close> references and need not end when they form a cycle: the result is
  \<open>None\<close> when it does not.
\<close>

partial_function (option) ancestors_loop :: "heap \<Rightarrow> ref option \<Rightarrow> string list \<Rightarrow> string list option" where
  "ancestors_loop h current ancestors =
     (case current of
        None \<Rightarrow> Some ancestors
      | Some c \<Rightarrow> ancestors_loop h (parent (h c)) (ancestors @ [name (h c)]))"

text \<open>The property returns the name and stores it in \<^verbatim>\<open>self._full_name\<close>.\<close>

definition full_name :: "heap \<Rightarrow> ref \<Rightarrow> (string \<times> heap) option" where
  "full_name h self =
     (case u_full_name (h self) of
        Some s \<Rightarrow> Some (s, h)
      | None \<Rightarrow>
          (case ancestors_loop h (parent (h self)) [name (h self)] of
             None \<Rightarrow> None
           | Some ancestors \<Rightarrow>
               Some (join ''.'' ancestors,
                     h(self := (h self)\<lparr>u_full_name := Some (join ''.'' ancestors)\<rparr>))))"

subsection \<open>The call graph: \<^verbatim>\<open>module\<close>, \<^verbatim>\<open>Dependency.external_name\<close> and \<^verbatim>\<open>Executable.changed\<close>\<close>

text \<open>
  The property \<^verbatim>\<open>module\<close> of \<^verbatim>\<open>CodeElement\<close> and of \<^verbatim>\<open>Dependency\<close> (the same
  code): the cached \<^verbatim>\<open>_module\<close> when there is one, and otherwise the first instance of
  \<^verbatim>\<open>Module\<close> on the way up the \<^verbatim>\<open>parent\<close> references, or \<^verbatim>\<open>None\<close> at the end of
  the chain. The walk need not end on a cycle of parents: the outer \<open>None\<close> stands for
  that. The property also stores its result in \<^verbatim>\<open>_module\<close>; that write is left out,
  since nothing below changes a parent or a class and a later read of the cache gives
  what the walk gives again.
\<close>

partial_function (option) module_walk :: "heap \<Rightarrow> ref option \<Rightarrow> ref option option" where
  "module_walk h root =
     (case root of
        None \<Rightarrow> Some None
      | Some r \<Rightarrow> if isinstance (h r) Module then Some (Some r)
                  else module_walk h (parent (h r)))"

definition module_of :: "heap \<Rightarrow> ref \<Rightarrow> ref option option" where
  "module_of h self =
     (case u_module (h self) of
        Some m \<Rightarrow> Some (Some m)
      | None \<Rightarrow> module_walk h (Some self))"

text \<open>
  \<^verbatim>\<open>"{}.{}".format(self.module.name.lower(), self.name)\<close> of a \<^verbatim>\<open>Dependency\<close>, whose
  \<^verbatim>\<open>name\<close> is \<^verbatim>\<open>self._name.lower()\<close>; \<^verbatim>\<open>None.name\<close> raises.
\<close>

definition external_name :: "heap \<Rightarrow> ref \<Rightarrow> (error + string) option" where
  "external_name h self =
     (case module_of h self of
        None \<Rightarrow> None
      | Some None \<Rightarrow> Some (Inl AttributeError)
      | Some (Some m) \<Rightarrow> Some (Inr (lower (name (h m)) @ ''.'' @ lower (u_name (h self)))))"

text \<open>
  \<^verbatim>\<open>_get_assignments_in\<close> returns \<^verbatim>\<open>True\<close> from inside its first loop, falls off the
  end of the function (\<^verbatim>\<open>None\<close>) when that loop finds nothing, and returns a list when
  \<open>symbol\<close> is empty.
\<close>

datatype assign_result = RTrue | RNone | RList "string list"

fun assigned :: "string \<Rightarrow> string list \<Rightarrow> bool" where
  "assigned lsymbol [] = False"
| "assigned lsymbol (assign # rest) =
     (if lower (hd (split_on CHR ''%'' assign)) = lsymbol then True
      else assigned lsymbol rest)"

definition u_get_assignments_in :: "obj \<Rightarrow> (string \<times> ref) list \<Rightarrow> string \<Rightarrow> assign_result" where
  "u_get_assignments_in self filterlist symbol =
     (if symbol \<noteq> [] then
        (if assigned symbol (u_assignments self) then RTrue else RNone)
      else RList (filter (\<lambda>assign. map_of filterlist (lower (hd (split_on CHR ''%'' assign))) \<noteq> None)
                    (u_assignments self)))"

text \<open>
  \<^verbatim>\<open>changed(symbol, checked)\<close>. The class of the registry of modules that
  \<^verbatim>\<open>self.module.parent\<close> refers to is not among the sources: its method
  \<^verbatim>\<open>get_executable\<close> is the parameter \<open>ge\<close>, from the registry and a name to an
  executable or \<^verbatim>\<open>None\<close>. The list \<open>checked\<close> is shared by all the calls of one
  query, so each call returns it with its result. The first argument bounds the depth
  of the calls: \<open>None\<close> means that it was not enough. The two nested \<^verbatim>\<open>for\<close> loops
  go through the dependencies of every list of \<^verbatim>\<open>self.dependencies\<close> in order, here
  as one loop over the lists put end to end; its result is the value the function
  returns from inside the loop, or \<open>None\<close> when the loop ends.
  \<^verbatim>\<open>changed\<close> is a method of \<^verbatim>\<open>Executable\<close>; on a \<^verbatim>\<open>Module\<close> the attribute of that
  name is a bool.
\<close>

fun changed :: "nat \<Rightarrow> (ref \<Rightarrow> string \<Rightarrow> ref option) \<Rightarrow> heap \<Rightarrow> ref \<Rightarrow> string \<Rightarrow> string list
      \<Rightarrow> (error + (string option \<times> string list)) option"
  and changed_loop :: "nat \<Rightarrow> (ref \<Rightarrow> string \<Rightarrow> ref option) \<Rightarrow> heap \<Rightarrow> ref \<Rightarrow> string \<Rightarrow> string list
      \<Rightarrow> ref list \<Rightarrow> (error + (string option \<times> string list)) option" where
  "changed 0 ge h self symbol checked = None"
| "changed (Suc n) ge h self symbol checked =
     (if isinstance (h self) Module then Some (Inl TypeError)
      else if \<not> isinstance (h self) Executable then Some (Inl AttributeError)
      else
        (case module_of h self of
           None \<Rightarrow> None
         | Some None \<Rightarrow> Some (Inl AttributeError)
         | Some (Some m) \<Rightarrow>
             (let myname = lower (name (h m) @ ''.'' @ name (h self))
              in if myname \<notin> set checked then
                   (if u_get_assignments_in (h self) (u_parameters (h self)) symbol = RTrue
                    then Some (Inr (Some myname, checked))
                    else
                      (case dependencies (h self) of
                         DepList ds \<Rightarrow>
                           if ds = [] then Some (Inr (None, checked @ [myname]))
                           else Some (Inl TypeError)
                       | DepDict deps \<Rightarrow>
                           changed_loop n ge h self symbol (checked @ [myname])
                             (concat (map snd deps))))
                 else Some (Inr (None, checked)))))"
| "changed_loop n ge h self symbol checked [] = Some (Inr (None, checked))"
| "changed_loop n ge h self symbol checked (dependency # rest) =
     (case module_of h self of
        None \<Rightarrow> None
      | Some None \<Rightarrow> Some (Inl AttributeError)
      | Some (Some m) \<Rightarrow>
          (case parent (h m) of
             None \<Rightarrow> Some (Inl AttributeError)
           | Some registry \<Rightarrow>
               (case external_name h dependency of
                  None \<Rightarrow> None
                | Some (Inl e) \<Rightarrow> Some (Inl e)
                | Some (Inr ename) \<Rightarrow>
                    (case ge registry ename of
                       None \<Rightarrow> changed_loop n ge h self symbol (checked @ [ename]) rest
                     | Some iexec \<Rightarrow>
                         (case changed n ge h iexec symbol checked of
                            None \<Rightarrow> None
                          | Some (Inl e) \<Rightarrow> Some (Inl e)
                          | Some (Inr (res, checked')) \<Rightarrow>
                              if res \<noteq> Some [] then Some (Inr (Some ename, checked'))
                              else changed_loop n ge h self symbol (checked' @ [ename]) rest)))))"

text \<open>
  Two subroutines of one module that call each other: \<^verbatim>\<open>a\<close> (at 2) calls \<^verbatim>\<open>b\<close>
  (at 3) and \<^verbatim>\<open>b\<close> calls \<^verbatim>\<open>a\<close>; \<^verbatim>\<open>a\<close> assigns to nothing and \<^verbatim>\<open>b\<close> assigns
  to \<^verbatim>\<open>y%z\<close>. The module is at 0, its registry at 9, the two \<^verbatim>\<open>Dependency\<close>
  instances at 6 and 7.
\<close>

definition call_heap :: heap where
  "call_heap = (\<lambda>r. CodeElement_init Object [] None None)
     (0 := (CodeElement_init Module ''M'' None (Some 9))\<lparr>executables := [(''a'', 2), (''b'', 3)]\<rparr>,
      2 := (CodeElement_init Subroutine ''a'' None (Some 0))\<lparr>dependencies := DepDict [(''b'', [6])]\<rparr>,
      3 := (CodeElement_init Subroutine ''b'' None (Some 0))
             \<lparr>dependencies := DepDict [(''a'', [7])], u_assignments := [''y%z'']\<rparr>,
      6 := (CodeElement_init Dependency [] None (Some 2))\<lparr>u_name := ''B''\<rparr>,
      7 := (CodeElement_init Dependency [] None (Some 3))\<lparr>u_name := ''a''\<rparr>)"

definition call_registry :: "ref \<Rightarrow> string \<Rightarrow> ref option" where
  "call_registry p s =
     (if p = 9 \<and> s = ''m.a'' then Some 2 else if p = 9 \<and> s = ''m.b'' then Some 3 else None)"


text \<open>The name under which \<^verbatim>\<open>changed\<close> records an executable in \<open>checked\<close>.\<close>

definition myname_of :: "heap \<Rightarrow> ref \<Rightarrow> string" where
  "myname_of h r =
     (case module_of h r of
        Some (Some m) \<Rightarrow> lower (name (h m) @ ''.'' @ name (h r))
      | _ \<Rightarrow> [])"

subsection \<open>Embedded elements: \<^verbatim>\<open>Module.find_embedded_parent\<close> and \<^verbatim>\<open>Module.update_embedded\<close>\<close>

text \<open>
  \<^verbatim>\<open>collection(attribute)\<close> looks the name up in a dict literal of five entries. The
  \<^verbatim>\<open>dependencies\<close> and \<^verbatim>\<open>publics\<close> of a module are lists of strings, the other three
  are dicts from a name to an element.
\<close>

datatype pycoll = Names "string list" | Entries "(string \<times> ref) list"

definition collection :: "obj \<Rightarrow> string \<Rightarrow> error + pycoll" where
  "collection self attribute =
     (if attribute = ''dependencies'' then
        Inr (Names (case dependencies self of DepList l \<Rightarrow> l | DepDict d \<Rightarrow> map fst d))
      else if attribute = ''publics'' then Inr (Names (publics self))
      else if attribute = ''members'' then Inr (Entries (members self))
      else if attribute = ''types'' then Inr (Entries (types self))
      else if attribute = ''executables'' then Inr (Entries (executables self))
      else Inl KeyError)"

text \<open>
  \<open>coll\<close> in \<^verbatim>\<open>update_embedded\<close> is the dict itself, not a copy: \<open>dict_of\<close> reads it
  as it is now, and \<^verbatim>\<open>del coll[key]\<close> changes the attribute of the module.
\<close>

definition dict_of :: "obj \<Rightarrow> string \<Rightarrow> (string \<times> ref) list" where
  "dict_of self attribute =
     (if attribute = ''members'' then members self
      else if attribute = ''types'' then types self
      else executables self)"

definition del_item :: "obj \<Rightarrow> string \<Rightarrow> string \<Rightarrow> obj" where
  "del_item self attribute key =
     (if attribute = ''members'' then self\<lparr>members := AList.delete key (members self)\<rparr>
      else if attribute = ''types'' then self\<lparr>types := AList.delete key (types self)\<rparr>
      else self\<lparr>executables := AList.delete key (executables self)\<rparr>)"

text \<open>
  One loop of \<^verbatim>\<open>find_embedded_parent\<close>: the first entry whose span strictly contains
  the span of the element. The loop over the executables is the \<^verbatim>\<open>else\<close> of the loop
  over the types: it runs when that one ends without \<^verbatim>\<open>break\<close>.
\<close>

fun find_container :: "heap \<Rightarrow> obj \<Rightarrow> (string \<times> ref) list \<Rightarrow> ref option" where
  "find_container h element [] = None"
| "find_container h element ((k, r) # es) =
     (if start element > start (h r) \<and> end element < end (h r) then Some r
      else find_container h element es)"

definition find_embedded_parent :: "heap \<Rightarrow> ref \<Rightarrow> ref \<Rightarrow> ref option" where
  "find_embedded_parent h self element =
     (case find_container h (h element) (types (h self)) of
        Some r \<Rightarrow> Some r
      | None \<Rightarrow> find_container h (h element) (executables (h self)))"

text \<open>
  The attribute \<^verbatim>\<open>types\<close> exists on executables and modules, the attribute
  \<^verbatim>\<open>executables\<close> on executables, types and modules; \<^verbatim>\<open>new_parent.types\<close> raises
  \<^verbatim>\<open>AttributeError\<close> on a \<^verbatim>\<open>CustomType\<close>. The loop returns the store it leaves
  behind and the exception it raised, if any.
\<close>

definition has_types :: "obj \<Rightarrow> bool" where
  "has_types x = (isinstance x Executable \<or> isinstance x Module)"

definition has_executables :: "obj \<Rightarrow> bool" where
  "has_executables x = (isinstance x Executable \<or> isinstance x CustomType \<or> isinstance x Module)"

fun update_embedded_loop :: "heap \<Rightarrow> ref \<Rightarrow> string \<Rightarrow> string list \<Rightarrow> heap \<times> error option" where
  "update_embedded_loop h self attribute [] = (h, None)"
| "update_embedded_loop h self attribute (key # keys) =
     (case map_of (dict_of (h self) attribute) key of
        None \<Rightarrow> (h, Some KeyError)
      | Some element \<Rightarrow>
          (case find_embedded_parent h self element of
             None \<Rightarrow> update_embedded_loop h self attribute keys
           | Some new_parent \<Rightarrow>
               (let h1 = h(element := (h element)\<lparr>parent := Some new_parent\<rparr>)
                in if attribute = ''types'' then
                     (if has_types (h1 new_parent) then
                        (let h2 = h1(new_parent := (h1 new_parent)
                                    \<lparr>types := AList.update key element (types (h1 new_parent))\<rparr>);
                             h3 = h2(self := del_item (h2 self) attribute key)
                         in update_embedded_loop h3 self attribute keys)
                      else (h1, Some AttributeError))
                   else
                     (if has_executables (h1 new_parent) then
                        (let h2 = h1(new_parent := (h1 new_parent)
                                    \<lparr>executables :=
                                       AList.update key element (executables (h1 new_parent))\<rparr>);
                             h3 = h2(self := del_item (h2 self) attribute key)
                         in update_embedded_loop h3 self attribute keys)
                      else (h1, Some AttributeError)))))"

definition update_embedded :: "heap \<Rightarrow> ref \<Rightarrow> string \<Rightarrow> heap \<times> error option" where
  "update_embedded h self attribute =
     (case collection (h self) attribute of
        Inl e \<Rightarrow> (h, Some e)
      | Inr (Names l) \<Rightarrow> (h, Some AttributeError)
      | Inr (Entries coll) \<Rightarrow> update_embedded_loop h self attribute (map fst coll))"

text \<open>The nested collection an element of the collection \<open>attribute\<close> is moved into.\<close>

definition nested_of :: "obj \<Rightarrow> string \<Rightarrow> (string \<times> ref) list" where
  "nested_of x attribute = (if attribute = ''types'' then types x else executables x)"

text \<open>\<open>inside h r p\<close>: the span of \<open>r\<close> lies strictly inside the span of \<open>p\<close>.\<close>

definition inside :: "heap \<Rightarrow> ref \<Rightarrow> ref \<Rightarrow> bool" where
  "inside h r p = (start (h r) > start (h p) \<and> end (h r) < end (h p))"

definition top_refs :: "heap \<Rightarrow> ref \<Rightarrow> ref set" where
  "top_refs h self = snd ` set (types (h self) @ executables (h self))"

text \<open>
  A module (at 0) with a subroutine \<^verbatim>\<open>outer\<close> (at 2) that holds a type \<^verbatim>\<open>inner\<close>
  (at 3) and a subroutine \<^verbatim>\<open>helper\<close> (at 4) in its span, all three still in the
  collections of the module; and a module with a type \<^verbatim>\<open>box\<close> (at 5) whose span
  holds the type \<^verbatim>\<open>inner\<close>.
\<close>

definition nest_heap :: heap where
  "nest_heap = (\<lambda>r. CodeElement_init Object [] None None)
     (0 := (CodeElement_init Module ''m'' None None)
             \<lparr>end := 200, types := [(''inner'', 3)],
              executables := [(''helper'', 4), (''outer'', 2)]\<rparr>,
      2 := (CodeElement_init Subroutine ''outer'' None (Some 0))\<lparr>start := 20, end := 150\<rparr>,
      3 := (CodeElement_init CustomType ''inner'' None (Some 0))\<lparr>start := 40, end := 60\<rparr>,
      4 := (CodeElement_init Subroutine ''helper'' None (Some 0))\<lparr>start := 70, end := 120\<rparr>)"

definition box_heap :: heap where
  "box_heap = (\<lambda>r. CodeElement_init Object [] None None)
     (0 := (CodeElement_init Module ''m'' None None)
             \<lparr>end := 200, types := [(''box'', 5), (''inner'', 3)]\<rparr>,
      5 := (CodeElement_init CustomType ''box'' None (Some 0))\<lparr>start := 20, end := 150\<rparr>,
      3 := (CodeElement_init CustomType ''inner'' None (Some 0))\<lparr>start := 40, end := 60\<rparr>)"


text \<open>
  One round of the loop of \<^verbatim>\<open>update_embedded\<close> that finds a container \<open>p\<close> for the
  element \<open>r\<close> under \<open>key\<close>, as a change of the store.
\<close>

definition put_nested :: "obj \<Rightarrow> string \<Rightarrow> (string \<times> ref) list \<Rightarrow> obj" where
  "put_nested x attribute v = (if attribute = ''types'' then x\<lparr>types := v\<rparr> else x\<lparr>executables := v\<rparr>)"

definition embed_step :: "heap \<Rightarrow> ref \<Rightarrow> string \<Rightarrow> string \<Rightarrow> ref \<Rightarrow> ref \<Rightarrow> heap" where
  "embed_step h self attribute key r p =
     (let h1 = h(r := (h r)\<lparr>parent := Some p\<rparr>);
          h2 = h1(p := put_nested (h1 p) attribute (AList.update key r (nested_of (h1 p) attribute)))
      in h2(self := del_item (h2 self) attribute key))"


text \<open>
  What a run of the loop over the keys \<open>ks\<close> leaves as it was (\<open>loop_frame\<close>) and what
  it does to an element that has a container (\<open>loop_moved\<close>).
\<close>

definition loop_frame :: "heap \<Rightarrow> heap \<Rightarrow> ref \<Rightarrow> string \<Rightarrow> string list \<Rightarrow> bool" where
  "loop_frame h h' self a ks =
     ((\<forall>x. start (h' x) = start (h x) \<and> end (h' x) = end (h x)) \<and>
      set (dict_of (h' self) a) \<subseteq> set (dict_of (h self) a) \<and>
      top_refs h' self \<subseteq> top_refs h self \<and>
      (\<forall>x. (\<forall>k\<in>set ks. (k, x) \<notin> set (dict_of (h self) a)) \<longrightarrow> parent (h' x) = parent (h x)) \<and>
      (\<forall>x k. x \<noteq> self \<longrightarrow> k \<notin> set ks \<longrightarrow>
         map_of (nested_of (h' x) a) k = map_of (nested_of (h x) a) k))"

definition loop_moved :: "heap \<Rightarrow> heap \<Rightarrow> ref \<Rightarrow> string \<Rightarrow> string list \<Rightarrow> bool" where
  "loop_moved h h' self a ks =
     (\<forall>k r. k \<in> set ks \<longrightarrow> (k, r) \<in> set (dict_of (h self) a) \<longrightarrow>
        (\<exists>q\<in>top_refs h self. inside h r q) \<longrightarrow>
        k \<notin> fst ` set (dict_of (h' self) a) \<and>
        (\<exists>p\<in>top_refs h self. inside h r p \<and> parent (h' r) = Some p \<and>
           map_of (nested_of (h' p) a) k = Some r))"

text \<open>
  Which container an element gets. When the loop over the keys \<open>ks\<close> reaches \<open>key\<close>,
  the entries under the earlier keys whose element lay inside a top-level span have
  been deleted from the collection; \<open>remaining\<close> is what is left of it then, and
  \<open>container_at\<close> is what \<^verbatim>\<open>find_embedded_parent\<close> finds among the types and the
  executables of that moment.
\<close>

definition remaining :: "heap \<Rightarrow> ref \<Rightarrow> string \<Rightarrow> string list \<Rightarrow> string \<Rightarrow> (string \<times> ref) list" where
  "remaining h self attribute ks key =
     filter (\<lambda>(k, x). \<not> (k \<in> set (takeWhile (\<lambda>j. j \<noteq> key) ks) \<and>
                            find_embedded_parent h self x \<noteq> None))
       (dict_of (h self) attribute)"

definition container_at :: "heap \<Rightarrow> ref \<Rightarrow> string \<Rightarrow> string list \<Rightarrow> string \<Rightarrow> ref \<Rightarrow> ref option" where
  "container_at h self attribute ks key r =
     (case find_container h (h r)
             (if attribute = ''types'' then remaining h self attribute ks key else types (h self)) of
        Some p \<Rightarrow> Some p
      | None \<Rightarrow>
          find_container h (h r)
            (if attribute = ''types'' then executables (h self)
             else remaining h self attribute ks key))"

text \<open>
  A module (at 0) with three subroutines in a chain: \<^verbatim>\<open>leaf\<close> (at 4) lies in \<^verbatim>\<open>mid\<close>
  (at 2), which lies in \<^verbatim>\<open>outer\<close> (at 3); the dict of the module lists \<^verbatim>\<open>mid\<close> first.
\<close>

definition chain_heap :: heap where
  "chain_heap = (\<lambda>r. CodeElement_init Object [] None None)
     (0 := (CodeElement_init Module ''m'' None None)
             \<lparr>end := 200, executables := [(''mid'', 2), (''outer'', 3), (''leaf'', 4)]\<rparr>,
      2 := (CodeElement_init Subroutine ''mid'' None (Some 0))\<lparr>start := 30, end := 100\<rparr>,
      3 := (CodeElement_init Subroutine ''outer'' None (Some 0))\<lparr>start := 10, end := 150\<rparr>,
      4 := (CodeElement_init Subroutine ''leaf'' None (Some 0))\<lparr>start := 40, end := 60\<rparr>)"

section \<open>Theorems\<close>

subsection \<open>Docstrings\<close>

lemma del_first_match_keys:
  "map doc_key (del_first_match doc ds) = remove1 (doc_key doc) (map doc_key ds)"
  by (induction ds) (auto simp: doc_key_def)

lemma del_first_match_distinct:
  "distinct (map doc_key ds) \<Longrightarrow> doc_key doc \<notin> set (map doc_key (del_first_match doc ds))"
  by (simp add: del_first_match_keys)

lemma overwrite_docs_distinct:
  "distinct (map doc_key (docstring e)) \<Longrightarrow> distinct (map doc_key (docstring (overwrite_docs e d)))"
  using del_first_match_distinct [of "docstring e" d]
  by (simp add: overwrite_docs_def del_first_match_keys)

lemma foldl_overwrite_docs_distinct:
  "distinct (map doc_key (docstring e)) \<Longrightarrow>
   distinct (map doc_key (docstring (foldl overwrite_docs e ds)))"
  by (induction ds arbitrary: e) (simp_all add: overwrite_docs_distinct)

lemma filter_key_absent:
  "k \<notin> set (map doc_key ds) \<Longrightarrow> filter (\<lambda>d. doc_key d = k) ds = []"
  by (induction ds) auto

lemma overwrite_docs_last_wins:
  assumes "distinct (map doc_key (docstring e))"
  shows "filter (\<lambda>x. doc_key x = doc_key d) (docstring (overwrite_docs e d)) = [d]"
  using filter_key_absent [OF del_first_match_distinct [OF assms, of d]]
  by (simp add: overwrite_docs_def)

text \<open>
  Claim C3. The constructor leaves an empty docstring list, so no two entries share a
  (doctype, pointsto) pair; whenever no two entries share one, the same holds after any
  sequence of \<^verbatim>\<open>overwrite_docs\<close> calls; and after two further calls with entries of the
  same pair, the list holds exactly one entry of that pair, the second one.
\<close>

theorem overwrite_docs_invariant:
  "distinct (map doc_key (docstring (CodeElement_init c n m p))) \<and>
   (distinct (map doc_key (docstring e)) \<longrightarrow>
      distinct (map doc_key (docstring (foldl overwrite_docs e ds))) \<and>
      (doc_key d1 = doc_key d2 \<longrightarrow>
         filter (\<lambda>x. doc_key x = doc_key d2)
           (docstring (overwrite_docs (overwrite_docs (foldl overwrite_docs e ds) d1) d2)) = [d2]))"
proof -
  have fresh: "distinct (map doc_key (docstring (CodeElement_init c n m p)))"
    by (simp add: CodeElement_init_def)
  have step: "distinct (map doc_key (docstring e)) \<Longrightarrow>
      filter (\<lambda>x. doc_key x = doc_key d2)
           (docstring (overwrite_docs (overwrite_docs (foldl overwrite_docs e ds) d1) d2)) = [d2]"
    by (intro overwrite_docs_last_wins overwrite_docs_distinct foldl_overwrite_docs_distinct)
  have inv: "distinct (map doc_key (docstring e)) \<Longrightarrow>
      distinct (map doc_key (docstring (foldl overwrite_docs e ds)))"
    by (rule foldl_overwrite_docs_distinct)
  show ?thesis using fresh step inv by (intro conjI impI) assumption+
qed

theorem overwrite_docs_invariant_witness:
  "distinct (map doc_key (docstring (CodeElement_init ValueElement ''x'' None None))) \<and>
   doc_key doc_a = doc_key doc_b \<and>
   distinct (map doc_key (docstring
      (foldl overwrite_docs (CodeElement_init ValueElement ''x'' None None) [doc_s]))) \<and>
   filter (\<lambda>x. doc_key x = doc_key doc_b)
     (docstring (overwrite_docs (overwrite_docs
        (foldl overwrite_docs (CodeElement_init ValueElement ''x'' None None) [doc_s])
        doc_a) doc_b)) = [doc_b]"
proof -
  have k: "doc_key doc_a = doc_key doc_b"
    by (simp add: doc_key_def doc_a_def doc_b_def pointsto_def lower_def lower_char_def)
  have t: "distinct (map doc_key (docstring (CodeElement_init ValueElement ''x'' None None))) \<and>
   (distinct (map doc_key (docstring (CodeElement_init ValueElement ''x'' None None))) \<longrightarrow>
      distinct (map doc_key (docstring
        (foldl overwrite_docs (CodeElement_init ValueElement ''x'' None None) [doc_s]))) \<and>
      (doc_key doc_a = doc_key doc_b \<longrightarrow>
         filter (\<lambda>x. doc_key x = doc_key doc_b)
           (docstring (overwrite_docs (overwrite_docs
              (foldl overwrite_docs (CodeElement_init ValueElement ''x'' None None) [doc_s])
              doc_a) doc_b)) = [doc_b]))"
    by (rule overwrite_docs_invariant)
  from t have a: "distinct (map doc_key (docstring (CodeElement_init ValueElement ''x'' None None)))" ..
  from t a k show ?thesis by (intro conjI) (elim conjE impE, assumption+)+
qed

subsection \<open>Section classification\<close>

lemma short_type_fields:
  "start short_type = 10" "end short_type = 100" "docstart short_type = 0"
  "docend short_type = 0" "cls short_type = CustomType"
  by (simp_all add: short_type_def CodeElement_init_def)

text \<open>
  Claim C7 as stated fails: an offset inside \<^verbatim>\<open>[start, end]\<close> is classified as
  "signature", not "body", when it lies after the docstring and less than 8 characters
  past \<^verbatim>\<open>start\<close>. A type with \<^verbatim>\<open>start = 10\<close>, \<^verbatim>\<open>end = 100\<close> and no docstring, at
  offset 12.
\<close>

theorem find_section_body_counterexample:
  "start short_type \<le> 12 \<and> 12 \<le> end short_type \<and>
   find_section short_type 12 = Some ''signature'' \<and>
   find_section short_type 12 \<noteq> Some ''body''"
  by (simp add: short_type_fields find_section_def isinstance_def)

text \<open>
  Claim C7, amended. For an element with \<^verbatim>\<open>start\<close> and \<^verbatim>\<open>end\<close>, the three tests are
  tried in this order: "signature" when the offset lies after \<^verbatim>\<open>docend\<close> and less than
  8 past \<^verbatim>\<open>start\<close>; otherwise "body" when it lies in \<^verbatim>\<open>[start, end]\<close>; otherwise
  "docstring" when it lies in \<^verbatim>\<open>[docstart, docend]\<close>; otherwise none.
\<close>

theorem find_section_priority:
  assumes "isinstance e CodeElement"
  shows "find_section e c =
     (if c > docend e \<and> c - start e < 8 then Some ''signature''
      else if start e \<le> c \<and> c \<le> end e then Some ''body''
      else if docstart e \<le> c \<and> c \<le> docend e then Some ''docstring''
      else None)"
  using assms by (simp add: find_section_def)

theorem find_section_priority_witness:
  "isinstance short_type CodeElement \<and>
   find_section short_type 12 = Some ''signature'' \<and>
   find_section short_type 50 = Some ''body'' \<and>
   find_section short_type 0 = Some ''docstring'' \<and>
   find_section short_type 101 = None"
proof -
  have i: "isinstance short_type CodeElement"
    by (simp add: short_type_fields isinstance_def)
  show ?thesis
    using i find_section_priority [OF i, of 12] find_section_priority [OF i, of 50]
      find_section_priority [OF i, of 0] find_section_priority [OF i, of 101]
    by (simp add: short_type_fields)
qed

subsection \<open>Parameters\<close>

lemma two_params_fields:
  "paramorder two_params = [''a'', ''b'']" "u_parameters two_params = [(''a'', 1), (''b'', 2)]"
  by (simp_all add: two_params_def CodeElement_init_def)

text \<open>
  Claim C10. \<^verbatim>\<open>get_parameter(0)\<close> is \<^verbatim>\<open>None\<close> whatever the parameters are; a
  parameter is returned only for an index strictly between 0 and
  \<^verbatim>\<open>len(paramorder)\<close>, where the result is the entry of \<^verbatim>\<open>_parameters\<close> under
  \<^verbatim>\<open>paramorder[index]\<close>; and when the names of \<^verbatim>\<open>paramorder\<close> are distinct (as
  \<^verbatim>\<open>add_parameter\<close> keeps them), the name looked up is never the first one.
\<close>

theorem get_parameter_skips_first:
  "get_parameter e 0 = None \<and>
   (get_parameter e i = Some p \<longrightarrow>
      0 < i \<and> i < int (length (paramorder e)) \<and>
      map_of (u_parameters e) (paramorder e ! nat i) = Some p) \<and>
   (0 < i \<and> i < int (length (paramorder e)) \<longrightarrow>
      get_parameter e i = map_of (u_parameters e) (paramorder e ! nat i)) \<and>
   (distinct (paramorder e) \<longrightarrow> get_parameter e i \<noteq> None \<longrightarrow>
      paramorder e ! nat i \<noteq> paramorder e ! 0)"
proof -
  have a: "get_parameter e 0 = None" by (simp add: get_parameter_def)
  have b: "get_parameter e i = Some p \<Longrightarrow>
      0 < i \<and> i < int (length (paramorder e)) \<and>
      map_of (u_parameters e) (paramorder e ! nat i) = Some p"
    by (auto simp: get_parameter_def Let_def split: if_splits)
  have c: "0 < i \<and> i < int (length (paramorder e)) \<Longrightarrow>
      get_parameter e i = map_of (u_parameters e) (paramorder e ! nat i)"
    by (auto simp: get_parameter_def Let_def)
  have d: "distinct (paramorder e) \<Longrightarrow> get_parameter e i \<noteq> None \<Longrightarrow>
      paramorder e ! nat i \<noteq> paramorder e ! 0"
  proof -
    assume dis: "distinct (paramorder e)" and some: "get_parameter e i \<noteq> None"
    from some have r: "0 < i" "i < int (length (paramorder e))"
      by (auto simp: get_parameter_def split: if_splits)
    then have "nat i < length (paramorder e)" "0 < length (paramorder e)" "nat i \<noteq> 0"
      by auto
    with dis show ?thesis by (simp add: nth_eq_iff_index_eq)
  qed
  show ?thesis using a b c d by blast
qed

theorem get_parameter_skips_first_witness:
  "get_parameter two_params 0 = None \<and> get_parameter two_params 1 = Some 2 \<and>
   0 < (1::int) \<and> 1 < int (length (paramorder two_params)) \<and>
   distinct (paramorder two_params) \<and>
   map_of (u_parameters two_params) (paramorder two_params ! 0) = Some 1 \<and>
   paramorder two_params ! nat 1 \<noteq> paramorder two_params ! 0"
  using get_parameter_skips_first [of two_params 1 2]
  by (simp add: two_params_fields)

subsection \<open>Documentation warnings\<close>

text \<open>
  Claim C9 does not hold of the code: \<^verbatim>\<open>CodeElement.warn\<close> calls the value of the
  property \<^verbatim>\<open>has_docstring\<close>, a bool, and raises \<^verbatim>\<open>TypeError\<close> on every element;
  \<^verbatim>\<open>Module.warn\<close> looks \<^verbatim>\<open>warn\<close> up after \<^verbatim>\<open>CodeElement\<close> in the method
  resolution order of \<^verbatim>\<open>Module\<close>, where no class defines it, and raises
  \<^verbatim>\<open>AttributeError\<close>. Nothing is appended to the collection.
\<close>

theorem warn_raises:
  "CodeElement_warn e coll = Inl TypeError \<and>
   warn (CodeElement_init ValueElement n m p) coll = Inl TypeError \<and>
   warn (CodeElement_init Function n m p) coll = Inl TypeError \<and>
   warn (CodeElement_init CustomType n m p) coll = Inl TypeError \<and>
   Module_warn (CodeElement_init Module n m p) coll = Inl AttributeError \<and>
   warn (CodeElement_init Module n m p) coll = Inl AttributeError"
  by (simp add: warn_def CodeElement_warn_def Module_warn_def call_bool_def super_warn_def
      CodeElement_init_def)

subsection \<open>Lines and offsets\<close>

lemma split_on_nonempty: "split_on sep s \<noteq> []"
  by (induction s) (auto split: list.splits)

lemma linenum_loop_first:
  "i < length cs \<Longrightarrow> index \<le> cs ! i \<Longrightarrow> (\<forall>j<i. cs ! j < index) \<Longrightarrow>
   linenum_loop index cs k = PyList [int (k + i), cs ! i - index]"
proof (induction cs arbitrary: i k)
  case Nil
  then show ?case by simp
next
  case (Cons c cs)
  show ?case
  proof (cases i)
    case 0
    with Cons.prems show ?thesis by simp
  next
    case (Suc i')
    from Cons.prems Suc have c: "c < index" by auto
    from Cons.prems Suc have "i' < length cs" "index \<le> cs ! i'" "\<forall>j<i'. cs ! j < index"
      by auto
    from Cons.IH [OF this, of "Suc k"] c Suc show ?thesis by simp
  qed
qed

lemma linenum_loop_none:
  "(\<forall>j<length cs. cs ! j < index) \<Longrightarrow> linenum_loop index cs k = PyInt (- 1)"
proof (induction cs arbitrary: k)
  case Nil
  then show ?case by simp
next
  case (Cons c cs)
  from Cons.prems have c: "c < index" by auto
  from Cons.prems have "\<forall>j<length cs. cs ! j < index" by auto
  from Cons.IH [OF this] c show ?case by simp
qed

lemma running_total_length: "length (running_total tot cs) = length cs"
  by (induction cs arbitrary: tot) auto

lemma running_total_nth:
  "i < length cs \<Longrightarrow> running_total tot cs ! i = tot + sum_list (take (Suc i) cs)"
proof (induction cs arbitrary: tot i)
  case Nil
  then show ?case by simp
next
  case (Cons c cs)
  then show ?case by (cases i) auto
qed

lemma dec_last_length: "length (dec_last cs) = length cs"
  by (induction cs rule: dec_last.induct) auto

lemma dec_last_take:
  "i < length cs \<Longrightarrow>
   sum_list (take (Suc i) (dec_last cs)) =
     sum_list (take (Suc i) cs) - (if Suc i = length cs then 1 else 0)"
proof (induction cs arbitrary: i rule: dec_last.induct)
  case 1
  then show ?case by simp
next
  case (2 x)
  then show ?case by simp
next
  case (3 x y ys)
  then show ?case by (cases i) auto
qed

lemma index_text_chars:
  assumes "i < length (split_on CHR 0x0A (refstring m))"
  shows "u_chars (index_text m) ! i =
     sum_list (take (Suc i) (map (\<lambda>x. int (length x) + 1) (split_on CHR 0x0A (refstring m))))
       - (if Suc i = length (split_on CHR 0x0A (refstring m)) then 1 else 0)"
  using assms
  by (simp add: index_text_def Let_def running_total_nth dec_last_length dec_last_take)

lemma one_line_fields:
  "refstring one_line_module = ''abcdef''" "u_lines one_line_module = [''abcdef'']"
  "u_chars one_line_module = [6]"
  by (simp_all add: one_line_module_def CodeElement_init_def index_text_def)

text \<open>
  Claim C6 as stated fails in its second component: \<^verbatim>\<open>linenum\<close> returns the distance
  from the offset to the cumulative end of the line, not the offset of the character
  within the line. On the indexed one-line text \<^verbatim>\<open>abcdef\<close>, offset 1 gives \<^verbatim>\<open>[0, 5]\<close>,
  while the character is 1 past the start of its line.
\<close>

theorem linenum_offset_counterexample:
  "u_lines one_line_module \<noteq> [] \<and>
   linenum one_line_module 1 = (PyList [0, 5], one_line_module) \<and>
   offset_within_line (u_chars one_line_module) 0 1 = 1"
  by (simp add: linenum_def one_line_fields offset_within_line_def)

text \<open>
  Claim C6, amended. On indexed text (\<^verbatim>\<open>_lines\<close> not empty), if \<open>i\<close> is the first
  position whose cumulative end offset \<^verbatim>\<open>_chars[i]\<close> is at least the offset, then
  \<^verbatim>\<open>linenum\<close> returns \<open>i\<close> together with \<^verbatim>\<open>_chars[i] - offset\<close>, the distance from
  the offset to the end of that line, and leaves the module as it is. With no lines
  and an empty \<^verbatim>\<open>refstring\<close> it returns \<^verbatim>\<open>[-1, -1]\<close>. With no lines and a non-empty
  \<^verbatim>\<open>refstring\<close> it first indexes the text, which gives at least one line, and
  \<^verbatim>\<open>_chars[i]\<close> is then the sum of the lengths of the lines up to \<open>i\<close>, each counted
  with its line break, the last line without.
\<close>

theorem linenum_first_line:
  "(u_lines m \<noteq> [] \<longrightarrow> i < length (u_chars m) \<longrightarrow> index \<le> u_chars m ! i \<longrightarrow>
      (\<forall>j<i. u_chars m ! j < index) \<longrightarrow>
      linenum m index = (PyList [int i, u_chars m ! i - index], m)) \<and>
   (u_lines m = [] \<longrightarrow> refstring m = [] \<longrightarrow> linenum m index = (PyList [- 1, - 1], m)) \<and>
   (u_lines m = [] \<longrightarrow> refstring m \<noteq> [] \<longrightarrow>
      linenum m index = linenum (index_text m) index \<and> u_lines (index_text m) \<noteq> [] \<and>
      (\<forall>k<length (u_lines (index_text m)). u_chars (index_text m) ! k =
          sum_list (take (Suc k) (map (\<lambda>x. int (length x) + 1) (u_lines (index_text m))))
            - (if Suc k = length (u_lines (index_text m)) then 1 else 0)))"
proof -
  have a: "u_lines m \<noteq> [] \<Longrightarrow> i < length (u_chars m) \<Longrightarrow> index \<le> u_chars m ! i \<Longrightarrow>
      (\<forall>j<i. u_chars m ! j < index) \<Longrightarrow>
      linenum m index = (PyList [int i, u_chars m ! i - index], m)"
    using linenum_loop_first [of i "u_chars m" index 0] by (simp add: linenum_def)
  have b: "u_lines m = [] \<Longrightarrow> refstring m = [] \<Longrightarrow> linenum m index = (PyList [- 1, - 1], m)"
    by (simp add: linenum_def)
  have l: "u_lines (index_text m) = split_on CHR 0x0A (refstring m)"
    by (simp add: index_text_def Let_def)
  have r: "refstring (index_text m) = refstring m"
    by (simp add: index_text_def Let_def)
  have c1: "u_lines m = [] \<Longrightarrow> refstring m \<noteq> [] \<Longrightarrow>
      linenum m index = linenum (index_text m) index"
    by (simp add: linenum_def l r split_on_nonempty)
  have c2: "u_lines (index_text m) \<noteq> []"
    by (simp add: l split_on_nonempty)
  have c3: "\<forall>k<length (u_lines (index_text m)). u_chars (index_text m) ! k =
          sum_list (take (Suc k) (map (\<lambda>x. int (length x) + 1) (u_lines (index_text m))))
            - (if Suc k = length (u_lines (index_text m)) then 1 else 0)"
    unfolding l using index_text_chars [of _ m] by blast
  show ?thesis using a b c1 c2 c3 by blast
qed

lemma two_line_fields:
  "refstring two_line_module = ''abc'' @ [CHR 0x0A] @ ''defgh''" "u_lines two_line_module = []"
  by (simp_all add: two_line_module_def CodeElement_init_def)

lemma two_line_indexed:
  "u_lines (index_text two_line_module) = [''abc'', ''defgh'']"
  "u_chars (index_text two_line_module) = [4, 9]"
  by (simp_all add: index_text_def two_line_fields)

theorem linenum_first_line_witness:
  "u_lines (index_text two_line_module) \<noteq> [] \<and>
   (1::nat) < length (u_chars (index_text two_line_module)) \<and>
   (6::int) \<le> u_chars (index_text two_line_module) ! 1 \<and>
   u_chars (index_text two_line_module) ! 0 < (6::int) \<and>
   linenum (index_text two_line_module) 6 = (PyList [1, 3], index_text two_line_module) \<and>
   u_lines (CodeElement_init Module ''m'' None None) = [] \<and>
   refstring (CodeElement_init Module ''m'' None None) = [] \<and>
   linenum (CodeElement_init Module ''m'' None None) 6 =
     (PyList [- 1, - 1], CodeElement_init Module ''m'' None None) \<and>
   u_lines two_line_module = [] \<and> refstring two_line_module \<noteq> [] \<and>
   linenum two_line_module 6 = (PyList [1, 3], index_text two_line_module)"
proof -
  have e: "u_lines (CodeElement_init Module ''m'' None None) = []"
    "refstring (CodeElement_init Module ''m'' None None) = []"
    by (simp_all add: CodeElement_init_def)
  have p: "\<forall>j<1. u_chars (index_text two_line_module) ! j < (6::int)"
    by (simp add: two_line_indexed)
  have a: "linenum (index_text two_line_module) 6 = (PyList [1, 3], index_text two_line_module)"
    using linenum_first_line [of "index_text two_line_module" 1 6] p
    by (simp add: two_line_indexed)
  have b: "linenum (CodeElement_init Module ''m'' None None) 6 =
     (PyList [- 1, - 1], CodeElement_init Module ''m'' None None)"
    using linenum_first_line [of "CodeElement_init Module ''m'' None None" 0 6] e by blast
  have c: "linenum two_line_module 6 = linenum (index_text two_line_module) 6"
    using linenum_first_line [of two_line_module 0 6] by (simp add: two_line_fields)
  show ?thesis using a b c e by (simp add: two_line_fields two_line_indexed)
qed

subsection \<open>Shifting offsets\<close>

text \<open>
  Indexing the text and caching the boundary change \<^verbatim>\<open>_lines\<close>, \<^verbatim>\<open>_chars\<close> and
  \<^verbatim>\<open>_contains_index\<close> of the module, and nothing else in the store.
\<close>

lemma linenum_frame:
  "snd (linenum x index) =
     x\<lparr>u_lines := u_lines (snd (linenum x index)), u_chars := u_chars (snd (linenum x index))\<rparr>"
  by (simp add: linenum_def index_text_def Let_def)

lemma charindex_frame:
  assumes "charindex x line column = Inr (ci, s1)"
  shows "s1 = x\<lparr>u_lines := u_lines s1, u_chars := u_chars s1\<rparr>"
proof -
  from assms have s: "s1 = (if length (u_lines x) = 0 then snd (linenum x 1) else x)"
    by (auto simp: charindex_def Let_def split: sum.splits)
  show ?thesis
  proof (cases "length (u_lines x) = 0")
    case True
    with s have "s1 = snd (linenum x 1)" by simp
    with linenum_frame [of x 1] show ?thesis by simp
  next
    case False
    with s show ?thesis by simp
  qed
qed

lemma contains_index_frame:
  assumes "contains_index h self = Inr (c, h2)"
  shows "h2 = h(self := (h self)\<lparr>u_lines := u_lines (h2 self), u_chars := u_chars (h2 self),
            u_contains_index := u_contains_index (h2 self)\<rparr>)"
proof (cases "u_contains_index (h self)")
  case (Some c')
  with assms have "h2 = h" by (simp add: contains_index_def)
  then show ?thesis by simp
next
  case None
  define s1 where "s1 = snd (linenum (h self) (max_t_loop h (types (h self)) 0))"
  have f: "s1 = (h self)\<lparr>u_lines := u_lines s1, u_chars := u_chars s1\<rparr>"
    unfolding s1_def by (rule linenum_frame)
  from assms None have h2: "h2 = h(self := s1\<lparr>u_contains_index := Some c\<rparr>)"
    by (auto simp: contains_index_def Let_def s1_def split: sum.splits)
  have "s1\<lparr>u_contains_index := Some c\<rparr> =
      (h self)\<lparr>u_lines := u_lines s1, u_chars := u_chars s1, u_contains_index := Some c\<rparr>"
    by (subst f) simp
  with h2 show ?thesis by simp
qed


lemma same_layout_refl: "same_layout x x"
  by (simp add: same_layout_def)

lemma same_layout_absstart: "same_layout x y \<Longrightarrow> absstart y = absstart x"
  by (simp add: same_layout_def absstart_def isinstance_def)

lemma charindex_layout:
  assumes "charindex x line column = Inr (ci, s1)"
  shows "same_layout x s1"
  by (subst charindex_frame [OF assms]) (simp add: same_layout_def)

lemma contains_index_layout:
  assumes "contains_index h self = Inr (c, h2)"
  shows "same_layout (h r) (h2 r)"
  by (subst contains_index_frame [OF assms]) (simp add: same_layout_def)

text \<open>The loops of \<^verbatim>\<open>update_elements\<close> with \<^verbatim>\<open>docdelta = 0\<close>, on distinct instances.\<close>

lemma charfix_loop_result:
  assumes "charfix_loop h es target 0 charcount = Inr h'" and "distinct (map snd es)"
  shows "(r \<notin> snd ` set es \<longrightarrow> h' r = h r) \<and>
         (r \<in> snd ` set es \<longrightarrow>
            (absstart (h r) > target \<longrightarrow> shifted_by charcount (h r) (h' r)) \<and>
            (\<not> absstart (h r) > target \<longrightarrow> h' r = h r)) \<and>
         members (h' r) = members (h r)"
  using assms
proof (induction es arbitrary: h)
  case Nil
  then show ?case by simp
next
  case (Cons e es)
  obtain k r0 where e: "e = (k, r0)" by (cases e)
  from Cons.prems e have d: "distinct (map snd es)" and new: "r0 \<notin> snd ` set es"
    by auto
  show ?case
  proof (cases "absstart (h r0) > target")
    case True
    with Cons.prems e obtain x where x: "u_element_charfix (h r0) charcount = Inr x"
      and rest: "charfix_loop (h(r0 := x)) es target 0 charcount = Inr h'"
      by (auto simp: u_update_char_check_def split: sum.splits)
    from x have sx: "shifted_by charcount (h r0) x" and mx: "members x = members (h r0)"
      by (auto simp: u_element_charfix_def shifted_by_def split: if_splits)
    from Cons.IH [OF rest d] new sx mx True e show ?thesis
      by (cases "r = r0") auto
  next
    case False
    with Cons.prems e have rest: "charfix_loop h es target 0 charcount = Inr h'"
      by (auto simp: u_update_char_check_def split: sum.splits)
    from Cons.IH [OF rest d] new False e show ?thesis
      by (cases "r = r0") auto
  qed
qed

lemma members_loop_result:
  assumes "distinct (map snd es)"
  shows "(r \<notin> snd ` set es \<longrightarrow> members_loop h es target charcount r = h r) \<and>
         (r \<in> snd ` set es \<longrightarrow>
            (start (h r) > target \<longrightarrow>
               shifted_by charcount (h r) (members_loop h es target charcount r)) \<and>
            (\<not> start (h r) > target \<longrightarrow> members_loop h es target charcount r = h r))"
  using assms
proof (induction es arbitrary: h)
  case Nil
  then show ?case by simp
next
  case (Cons e es)
  obtain k r0 where e: "e = (k, r0)" by (cases e)
  from Cons.prems e have d: "distinct (map snd es)" and new: "r0 \<notin> snd ` set es"
    by auto
  show ?case
  proof (cases "start (h r0) > target")
    case True
    define h1 where
      "h1 = h(r0 := (h r0)\<lparr>start := start (h r0) + charcount, end := end (h r0) + charcount\<rparr>)"
    from True e have m: "members_loop h (e # es) target charcount = members_loop h1 es target charcount"
      by (simp add: h1_def)
    have other: "\<And>q. q \<noteq> r0 \<Longrightarrow> h1 q = h q" by (simp add: h1_def)
    have this_one: "shifted_by charcount (h r0) (h1 r0)" by (simp add: h1_def shifted_by_def)
    show ?thesis
    proof (cases "r = r0")
      case True
      with Cons.IH [OF d, of h1] new this_one \<open>start (h r0) > target\<close> e show ?thesis
        unfolding m by auto
    next
      case False
      with Cons.IH [OF d, of h1] other [OF False] e show ?thesis
        unfolding m by auto
    qed
  next
    case False
    with e have m: "members_loop h (e # es) target charcount = members_loop h es target charcount"
      by simp
    from Cons.IH [OF d, of h] new False e show ?thesis
      unfolding m by (cases "r = r0") auto
  qed
qed


lemma same_layout_trans: "same_layout x y \<Longrightarrow> same_layout y z \<Longrightarrow> same_layout x z"
  by (simp add: same_layout_def)

text \<open>
  Claim C1. Let an edit be applied by \<^verbatim>\<open>update_elements(line, column, charcount)\<close> with
  \<^verbatim>\<open>docdelta = 0\<close>, let \<open>ci\<close> be \<^verbatim>\<open>charindex(line, column)\<close> and \<open>boundary\<close> the value
  of \<^verbatim>\<open>contains_index\<close>, and let the module hold distinct instances in the section the
  edit falls in. When the edit precedes the boundary, every type whose effective start
  \<^verbatim>\<open>absstart\<close> lies strictly after \<open>ci + charcount\<close> and every member whose \<^verbatim>\<open>start\<close>
  does (a member is a \<^verbatim>\<open>ValueElement\<close>, it has no docstring of its own and its
  effective start is \<^verbatim>\<open>start\<close>) has \<^verbatim>\<open>start\<close> and \<^verbatim>\<open>end\<close> increased by
  \<open>charcount\<close>, and every other type and member keeps both. Otherwise the same holds
  of the executables.
\<close>

theorem update_elements_shift:
  assumes ok: "update_elements h self line column charcount 0 = Inr h'"
    and ci: "charindex (h self) line column = Inr (ci, s1)"
    and bi: "contains_index (h(self := s1)) self = Inr (boundary, h2)"
    and d1: "distinct (map snd (types (h self) @ members (h self)))"
    and d2: "distinct (map snd (executables (h self)))"
  shows "(line < boundary \<longrightarrow>
            (\<forall>(k, r) \<in> set (types (h self)).
               (absstart (h r) > ci + charcount \<longrightarrow> shifted_by charcount (h r) (h' r)) \<and>
               (absstart (h r) \<le> ci + charcount \<longrightarrow> span_kept (h r) (h' r))) \<and>
            (\<forall>(k, r) \<in> set (members (h self)).
               (start (h r) > ci + charcount \<longrightarrow> shifted_by charcount (h r) (h' r)) \<and>
               (start (h r) \<le> ci + charcount \<longrightarrow> span_kept (h r) (h' r)))) \<and>
         (\<not> line < boundary \<longrightarrow>
            (\<forall>(k, r) \<in> set (executables (h self)).
               (absstart (h r) > ci + charcount \<longrightarrow> shifted_by charcount (h r) (h' r)) \<and>
               (absstart (h r) \<le> ci + charcount \<longrightarrow> span_kept (h r) (h' r)))) \<and>
         (\<forall>x. \<not> isinstance x Decoratable \<longrightarrow> absstart x = start x)"
proof -
  let ?T = "ci + charcount"
  have lay1: "same_layout (h r) ((h(self := s1)) r)" for r
    using charindex_layout [OF ci] by (simp add: same_layout_refl)
  have lay: "same_layout (h r) (h2 r)" for r
    using same_layout_trans [OF lay1 contains_index_layout [OF bi]] .
  have abs2: "absstart (h2 r) = absstart (h r)" for r
    using same_layout_absstart [OF lay] .
  have st2: "start (h2 r) = start (h r)" "end (h2 r) = end (h r)" for r
    using lay [of r] by (simp_all add: same_layout_def)
  have coll2: "types (h2 self) = types (h self)" "members (h2 self) = members (h self)"
    "executables (h2 self) = executables (h self)"
    using lay [of self] by (simp_all add: same_layout_def)
  have before: "(absstart (h r) > ?T \<longrightarrow> shifted_by charcount (h r) (h' r)) \<and>
                (absstart (h r) \<le> ?T \<longrightarrow> span_kept (h r) (h' r))"
    if lt: "line < boundary" and mem: "(k, r) \<in> set (types (h self))" for k r
  proof -
    from ok ci bi lt obtain h3 where
      c3: "charfix_loop h2 (types (h self)) ?T 0 charcount = Inr h3"
      and h': "h' = (members_loop h3 (members (h3 self)) ?T charcount)
                 (self := (members_loop h3 (members (h3 self)) ?T charcount self)
                    \<lparr>u_contains_index := None\<rparr>)"
      by (auto simp: update_elements_def Let_def coll2 split: sum.splits)
    from d1 have dt: "distinct (map snd (types (h self)))"
      and dm: "distinct (map snd (members (h self)))" by auto
    from mem have rin: "r \<in> snd ` set (types (h self))" by force
    with d1 have rout: "r \<notin> snd ` set (members (h self))" by auto
    have m3: "members (h3 self) = members (h self)"
      using charfix_loop_result [OF c3 dt, of self] coll2 by simp
    have r4: "members_loop h3 (members (h self)) ?T charcount r = h3 r"
      using members_loop_result [OF dm, of r h3 ?T charcount] rout by simp
    have s': "start (h' r) = start (h3 r)" "end (h' r) = end (h3 r)"
      using r4 by (cases "r = self"; simp add: h' m3)+
    from charfix_loop_result [OF c3 dt, of r] rin
    have "(absstart (h2 r) > ?T \<longrightarrow> shifted_by charcount (h2 r) (h3 r)) \<and>
          (\<not> absstart (h2 r) > ?T \<longrightarrow> h3 r = h2 r)" by simp
    then show ?thesis
      by (auto simp: shifted_by_def span_kept_def s' abs2 st2)
  qed
  have before_m: "(start (h r) > ?T \<longrightarrow> shifted_by charcount (h r) (h' r)) \<and>
                  (start (h r) \<le> ?T \<longrightarrow> span_kept (h r) (h' r))"
    if lt: "line < boundary" and mem: "(k, r) \<in> set (members (h self))" for k r
  proof -
    from ok ci bi lt obtain h3 where
      c3: "charfix_loop h2 (types (h self)) ?T 0 charcount = Inr h3"
      and h': "h' = (members_loop h3 (members (h3 self)) ?T charcount)
                 (self := (members_loop h3 (members (h3 self)) ?T charcount self)
                    \<lparr>u_contains_index := None\<rparr>)"
      by (auto simp: update_elements_def Let_def coll2 split: sum.splits)
    from d1 have dt: "distinct (map snd (types (h self)))"
      and dm: "distinct (map snd (members (h self)))" by auto
    from mem have rin: "r \<in> snd ` set (members (h self))" by force
    with d1 have rout: "r \<notin> snd ` set (types (h self))" by auto
    have m3: "members (h3 self) = members (h self)"
      using charfix_loop_result [OF c3 dt, of self] coll2 by simp
    have r3: "h3 r = h2 r"
      using charfix_loop_result [OF c3 dt, of r] rout by simp
    have s': "start (h' r) = start (members_loop h3 (members (h self)) ?T charcount r)"
      "end (h' r) = end (members_loop h3 (members (h self)) ?T charcount r)"
      by (simp_all add: h' m3)
    from members_loop_result [OF dm, of r h3 ?T charcount] rin
    have "(start (h3 r) > ?T \<longrightarrow>
             shifted_by charcount (h3 r) (members_loop h3 (members (h self)) ?T charcount r)) \<and>
          (\<not> start (h3 r) > ?T \<longrightarrow> members_loop h3 (members (h self)) ?T charcount r = h3 r)"
      by simp
    then show ?thesis
      by (auto simp: shifted_by_def span_kept_def s' r3 st2)
  qed
  have after: "(absstart (h r) > ?T \<longrightarrow> shifted_by charcount (h r) (h' r)) \<and>
               (absstart (h r) \<le> ?T \<longrightarrow> span_kept (h r) (h' r))"
    if ge: "\<not> line < boundary" and mem: "(k, r) \<in> set (executables (h self))" for k r
  proof -
    from ok ci bi ge have c3: "charfix_loop h2 (executables (h self)) ?T 0 charcount = Inr h'"
      by (auto simp: update_elements_def Let_def coll2 split: sum.splits)
    from mem have rin: "r \<in> snd ` set (executables (h self))" by force
    from charfix_loop_result [OF c3 d2, of r] rin
    have "(absstart (h2 r) > ?T \<longrightarrow> shifted_by charcount (h2 r) (h' r)) \<and>
          (\<not> absstart (h2 r) > ?T \<longrightarrow> h' r = h2 r)" by simp
    then show ?thesis
      by (auto simp: shifted_by_def span_kept_def abs2 st2)
  qed
  have plain: "\<forall>x. \<not> isinstance x Decoratable \<longrightarrow> absstart x = start x"
    by (simp add: absstart_def)
  from before before_m after plain show ?thesis by blast
qed


lemma edit_heap_at:
  "edit_heap 0 = edit_module"
  "edit_heap 5 = (CodeElement_init CustomType ''t'' None (Some 0))\<lparr>start := 10, end := 25\<rparr>"
  "edit_heap 2 = (CodeElement_init ValueElement ''a'' None (Some 0))\<lparr>start := 0, end := 8\<rparr>"
  "edit_heap 3 = (CodeElement_init ValueElement ''b'' None (Some 0))\<lparr>start := 26, end := 34\<rparr>"
  "edit_heap 4 = (CodeElement_init Subroutine ''s'' None (Some 0))\<lparr>start := 45, end := 53\<rparr>"
  by (simp_all add: edit_heap_def)

lemma edit_module_fields:
  "u_lines edit_module = []" "u_contains_index edit_module = None"
  "types edit_module = [(''t'', 5)]" "members edit_module = [(''a'', 2), (''b'', 3)]"
  "executables edit_module = [(''s'', 4)]" "cls edit_module = Module"
  by (simp_all add: edit_module_def CodeElement_init_def)

lemma edit_module_indexed:
  "u_lines (index_text edit_module) =
     [''integer a'', ''type t'', ''end type'', ''integer b'', ''contains'', ''sub s'', ''end'']"
  "u_chars (index_text edit_module) = [10, 17, 26, 36, 45, 51, 54]"
  "u_contains_index (index_text edit_module) = None"
  "types (index_text edit_module) = [(''t'', 5)]"
  "members (index_text edit_module) = [(''a'', 2), (''b'', 3)]"
  "executables (index_text edit_module) = [(''s'', 4)]"
  by (simp_all add: index_text_def edit_module_def CodeElement_init_def)

lemma edit_charindex:
  "charindex (edit_heap 0) 1 0 = Inr (10, index_text edit_module)"
  "charindex (edit_heap 0) 5 0 = Inr (45, index_text edit_module)"
proof -
  have r: "refstring edit_module \<noteq> []" by (simp add: edit_module_def)
  have l: "snd (linenum edit_module 1) = index_text edit_module"
    by (simp add: linenum_def edit_module_fields r Let_def edit_module_indexed)
  show "charindex (edit_heap 0) 1 0 = Inr (10, index_text edit_module)"
    by (simp add: charindex_def edit_heap_at edit_module_fields l edit_module_indexed py_index_def)
  show "charindex (edit_heap 0) 5 0 = Inr (45, index_text edit_module)"
    by (simp add: charindex_def edit_heap_at edit_module_fields l edit_module_indexed py_index_def)
qed

lemma edit_contains_index:
  "contains_index (edit_heap(0 := index_text edit_module)) 0 =
     Inr (4, edit_heap(0 := (index_text edit_module)\<lparr>u_contains_index := Some 4\<rparr>))"
proof -
  let ?h = "edit_heap(0 := index_text edit_module)"
  have m: "max_t_loop ?h [(''t'', 5)] 0 = 25"
    by (simp add: edit_heap_at embedded_def isinstance_def CodeElement_init_def index_text_def
        edit_module_def)
  have l: "linenum (index_text edit_module) 25 = (PyList [2, 1], index_text edit_module)"
    by (simp add: linenum_def edit_module_indexed)
  have s: "scan_contains [''integer a'', ''type t'', ''end type'', ''integer b'', ''contains'',
      ''sub s'', ''end''] 2 0 10 = Inr (Some 4)"
    by (simp add: edit_module_indexed py_index_def lower_def lower_char_def eval_nat_numeral)
  show ?thesis
    by (simp add: contains_index_def edit_module_indexed m l s subscript0_def py_index_def Let_def
        del: max_t_loop.simps)
qed


lemma edit_elements:
  "absstart (edit_heap 5) = 10" "start (edit_heap 2) = 0" "start (edit_heap 3) = 26"
  "absstart (edit_heap 4) = 45"
  by (simp_all add: edit_heap_at absstart_def CodeElement_init_def)

lemma edit_update_returns:
  "\<exists>h'. update_elements edit_heap 0 1 0 (- 1) 0 = Inr h'"
  "\<exists>h'. update_elements edit_heap 0 5 0 (- 1) 0 = Inr h'"
proof -
  let ?h2 = "edit_heap(0 := (index_text edit_module)\<lparr>u_contains_index := Some 4\<rparr>)"
  have at: "?h2 5 = edit_heap 5" "?h2 4 = edit_heap 4" by simp_all
  have t: "\<exists>h3. charfix_loop ?h2 [(''t'', 5)] 9 0 (- 1) = Inr h3"
    by (simp add: at edit_heap_at u_update_char_check_def u_element_charfix_def absstart_def
        isinstance_def CodeElement_init_def)
  have x: "\<exists>h3. charfix_loop ?h2 [(''s'', 4)] 44 0 (- 1) = Inr h3"
    by (simp add: at edit_heap_at u_update_char_check_def u_element_charfix_def absstart_def
        isinstance_def CodeElement_init_def)
  from t obtain h3 where h3: "charfix_loop ?h2 [(''t'', 5)] 9 0 (- 1) = Inr h3" by blast
  show "\<exists>h'. update_elements edit_heap 0 1 0 (- 1) 0 = Inr h'"
    by (simp add: update_elements_def edit_charindex edit_contains_index edit_module_indexed h3
        Let_def del: charfix_loop.simps)
  from x obtain h4 where h4: "charfix_loop ?h2 [(''s'', 4)] 44 0 (- 1) = Inr h4" by blast
  show "\<exists>h'. update_elements edit_heap 0 5 0 (- 1) 0 = Inr h'"
    by (simp add: update_elements_def edit_charindex edit_contains_index edit_module_indexed h4
        del: charfix_loop.simps)
qed

theorem update_elements_shift_witness:
  "(\<exists>h'. update_elements edit_heap 0 1 0 (- 1) 0 = Inr h' \<and>
      shifted_by (- 1) (edit_heap 5) (h' 5) \<and> span_kept (edit_heap 2) (h' 2) \<and>
      shifted_by (- 1) (edit_heap 3) (h' 3)) \<and>
   (\<exists>h'. update_elements edit_heap 0 5 0 (- 1) 0 = Inr h' \<and>
      shifted_by (- 1) (edit_heap 4) (h' 4)) \<and>
   distinct (map snd (types (edit_heap 0) @ members (edit_heap 0))) \<and>
   distinct (map snd (executables (edit_heap 0)))"
proof -
  have d1: "distinct (map snd (types (edit_heap 0) @ members (edit_heap 0)))"
    by (simp add: edit_heap_at edit_module_fields)
  have d2: "distinct (map snd (executables (edit_heap 0)))"
    by (simp add: edit_heap_at edit_module_fields)
  from edit_update_returns(1) obtain h' where
    ok: "update_elements edit_heap 0 1 0 (- 1) 0 = Inr h'" by blast
  have a: "shifted_by (- 1) (edit_heap 5) (h' 5) \<and> span_kept (edit_heap 2) (h' 2) \<and>
      shifted_by (- 1) (edit_heap 3) (h' 3)"
    using update_elements_shift [OF ok edit_charindex(1) edit_contains_index d1 d2]
    by (simp add: edit_heap_at(1) edit_module_fields edit_elements)
  from edit_update_returns(2) obtain h'' where
    ok2: "update_elements edit_heap 0 5 0 (- 1) 0 = Inr h''" by blast
  have b: "shifted_by (- 1) (edit_heap 4) (h'' 4)"
    using update_elements_shift [OF ok2 edit_charindex(2) edit_contains_index d1 d2]
    by (simp add: edit_heap_at(1) edit_module_fields edit_elements)
  from ok a ok2 b d1 d2 show ?thesis by blast
qed

subsection \<open>Full names\<close>

text \<open>
  Claim C2 does not hold of the code: the names are collected from the element up to
  the root and joined in that order, so the name of the element comes first and the
  name of its parent after it. The subroutine \<^verbatim>\<open>s\<close> of the module \<^verbatim>\<open>m\<close> gets
  \<^verbatim>\<open>s.m\<close>, where the claim gives \<^verbatim>\<open>m.s\<close>.
\<close>

theorem full_name_leaf_first:
  "parent (edit_heap 4) = Some 0 \<and> parent (edit_heap 0) = None \<and>
   name (edit_heap 4) = ''s'' \<and>
   map_option fst (full_name edit_heap 0) = Some ''m'' \<and>
   map_option fst (full_name edit_heap 4) = Some ''s.m'' \<and>
   map_option fst (full_name edit_heap 4) \<noteq> Some (''m'' @ ''.'' @ ''s'')"
proof -
  have f: "parent (edit_heap 4) = Some 0" "parent (edit_heap 0) = None"
    "name (edit_heap 4) = ''s''" "name (edit_heap 0) = ''m''"
    "u_full_name (edit_heap 4) = None" "u_full_name (edit_heap 0) = None"
    by (simp_all add: edit_heap_at edit_module_def CodeElement_init_def)
  have a0: "ancestors_loop edit_heap None [''m''] = Some [''m'']"
    by (simp add: ancestors_loop.simps)
  have a4: "ancestors_loop edit_heap (Some 0) [''s''] = Some [''s'', ''m'']"
    by (subst ancestors_loop.simps) (simp add: f ancestors_loop.simps)
  show ?thesis by (simp add: full_name_def f a0 a4)
qed

subsection \<open>The call graph\<close>

lemma call_heap_at:
  "call_heap 0 = (CodeElement_init Module ''M'' None (Some 9))\<lparr>executables := [(''a'', 2), (''b'', 3)]\<rparr>"
  "call_heap 2 = (CodeElement_init Subroutine ''a'' None (Some 0))\<lparr>dependencies := DepDict [(''b'', [6])]\<rparr>"
  "call_heap 3 = (CodeElement_init Subroutine ''b'' None (Some 0))
             \<lparr>dependencies := DepDict [(''a'', [7])], u_assignments := [''y%z'']\<rparr>"
  "call_heap 6 = (CodeElement_init Dependency [] None (Some 2))\<lparr>u_name := ''B''\<rparr>"
  "call_heap 7 = (CodeElement_init Dependency [] None (Some 3))\<lparr>u_name := ''a''\<rparr>"
  by (simp_all add: call_heap_def)

lemma call_heap_modules:
  "module_of call_heap 2 = Some (Some 0)" "module_of call_heap 3 = Some (Some 0)"
  "module_of call_heap 6 = Some (Some 0)" "module_of call_heap 7 = Some (Some 0)"
  by (simp_all add: module_of_def module_walk.simps call_heap_at CodeElement_init_def isinstance_def)

lemma call_heap_names:
  "external_name call_heap 6 = Some (Inr ''m.b'')" "external_name call_heap 7 = Some (Inr ''m.a'')"
  by (simp_all add: external_name_def call_heap_modules call_heap_at CodeElement_init_def
      lower_def lower_char_def)

text \<open>A deeper bound gives the same result, and the list of checked names only grows.\<close>

lemma changed_mono_step:
  "changed n ge h self symbol checked = Some x \<Longrightarrow>
     changed (Suc n) ge h self symbol checked = Some x"
  "changed_loop n ge h self symbol checked ds = Some x \<Longrightarrow>
     changed_loop (Suc n) ge h self symbol checked ds = Some x"
proof (induction n ge h self symbol checked and n ge h self symbol checked ds
    arbitrary: x and x rule: changed_changed_loop.induct)
  case (1 ge h self symbol checked)
  then show ?case by simp
next
  case (2 n ge h self symbol checked)
  have eq: "changed (Suc (Suc n)) ge h self symbol checked = changed (Suc n) ge h self symbol checked"
  proof (cases "dependencies (h self)")
    case (DepList ds)
    then show ?thesis by (simp add: Let_def split: option.splits)
  next
    case (DepDict deps)
    show ?thesis
    proof (cases "module_of h self")
      case None
      then show ?thesis by simp
    next
      case (Some mo)
      show ?thesis
      proof (cases mo)
        case None
        with Some show ?thesis by simp
      next
        case (Some m)
        define myname where "myname = lower (name (h m) @ ''.'' @ name (h self))"
        show ?thesis
        proof (cases "\<not> isinstance (h self) Module \<and> isinstance (h self) Executable \<and>
            myname \<notin> set checked \<and>
            u_get_assignments_in (h self) (u_parameters (h self)) symbol \<noteq> RTrue")
          case True
          with \<open>module_of h self = Some mo\<close> Some DepDict "2.prems"
          have p: "changed_loop n ge h self symbol (checked @ [myname]) (concat (map snd deps)) = Some x"
            by (simp add: Let_def myname_def)
          from True \<open>module_of h self = Some mo\<close> Some DepDict
          have i: "changed_loop (Suc n) ge h self symbol (checked @ [myname]) (concat (map snd deps)) = Some x"
            using "2.IH" [OF _ _ \<open>module_of h self = Some mo\<close> Some myname_def _ _ DepDict p]
            by simp
          from True \<open>module_of h self = Some mo\<close> Some DepDict p i show ?thesis
            by (simp add: Let_def myname_def del: changed_loop.simps)
        next
          case False
          with \<open>module_of h self = Some mo\<close> Some DepDict show ?thesis
            by (auto simp: Let_def myname_def simp del: changed_loop.simps)
        qed
      qed
    qed
  qed
  with "2.prems" show ?case by simp
next
  case (3 n ge h self symbol checked)
  then show ?case by simp
next
  case (4 n ge h self symbol checked dependency rest)
  note prem = "4.prems"
  show ?case
  proof (cases "module_of h self")
    case None
    with prem show ?thesis by simp
  next
    case (Some mo)
    note mo = this
    show ?thesis
    proof (cases mo)
      case None
      with mo prem show ?thesis by simp
    next
      case (Some m)
      note m = this
      show ?thesis
      proof (cases "parent (h m)")
        case None
        with mo m prem show ?thesis by simp
      next
        case (Some registry)
        note reg = this
        show ?thesis
        proof (cases "external_name h dependency")
          case None
          with mo m reg prem show ?thesis by simp
        next
          case (Some en)
          note en = this
          show ?thesis
          proof (cases en)
            case (Inl e)
            with mo m reg en prem show ?thesis by simp
          next
            case (Inr ename)
            note ename = this
            show ?thesis
            proof (cases "ge registry ename")
              case None
              with mo m reg en ename prem
              have p: "changed_loop n ge h self symbol (checked @ [ename]) rest = Some x"
                by simp
              have "changed_loop (Suc n) ge h self symbol (checked @ [ename]) rest = Some x"
                using "4.IH"(1) [OF mo m reg en ename None p] .
              with mo m reg en ename None show ?thesis by simp
            next
              case (Some iexec)
              note iexec = this
              show ?thesis
              proof (cases "changed n ge h iexec symbol checked")
                case None
                with mo m reg en ename iexec prem show ?thesis by simp
              next
                case (Some y)
                have y': "changed (Suc n) ge h iexec symbol checked = Some y"
                  using "4.IH"(2) [OF mo m reg en ename iexec Some] .
                show ?thesis
                proof (cases y)
                  case (Inl e)
                  with mo m reg en ename iexec Some prem have "x = Inl e" by simp
                  with mo m reg en ename iexec y' Inl show ?thesis
                    by (simp del: changed.simps)
                next
                  case (Inr rc)
                  obtain res checked' where rc: "rc = (res, checked')" by (cases rc)
                  show ?thesis
                  proof (cases "res \<noteq> Some []")
                    case True
                    with mo m reg en ename iexec Some Inr rc prem
                    have "x = Inr (Some ename, checked')" by simp
                    with mo m reg en ename iexec y' Inr rc True show ?thesis
                      by (simp del: changed.simps)
                  next
                    case False
                    with mo m reg en ename iexec Some Inr rc prem
                    have p: "changed_loop n ge h self symbol (checked' @ [ename]) rest = Some x"
                      by simp
                    from False have r: "res = Some []" by simp
                    have "changed_loop (Suc n) ge h self symbol (checked' @ [ename]) rest = Some x"
                      using "4.IH"(3) [OF mo m reg en ename iexec Some Inr rc [symmetric] _ p] r
                      by simp
                    with mo m reg en ename iexec y' Inr rc False show ?thesis
                      by (simp del: changed.simps)
                  qed
                qed
              qed
            qed
          qed
        qed
      qed
    qed
  qed
qed


lemma changed_mono:
  "n \<le> k \<Longrightarrow> changed n ge h self symbol checked = Some x \<Longrightarrow>
     changed k ge h self symbol checked = Some x"
proof (induction k)
  case 0
  then show ?case by simp
next
  case (Suc k)
  show ?case
  proof (cases "n = Suc k")
    case True
    from Suc.prems(2) show ?thesis unfolding True .
  next
    case False
    with Suc.prems have "n \<le> k" by simp
    from changed_mono_step(1) [OF Suc.IH [OF this Suc.prems(2)]] show ?thesis .
  qed
qed

lemma changed_loop_mono:
  "n \<le> k \<Longrightarrow> changed_loop n ge h self symbol checked ds = Some x \<Longrightarrow>
     changed_loop k ge h self symbol checked ds = Some x"
proof (induction k)
  case 0
  then show ?case by simp
next
  case (Suc k)
  show ?case
  proof (cases "n = Suc k")
    case True
    from Suc.prems(2) show ?thesis unfolding True .
  next
    case False
    with Suc.prems have "n \<le> k" by simp
    from changed_mono_step(2) [OF Suc.IH [OF this Suc.prems(2)]] show ?thesis .
  qed
qed

lemma changed_grows:
  "changed n ge h self symbol checked = Some (Inr (res, c')) \<Longrightarrow> set checked \<subseteq> set c'"
  "changed_loop n ge h self symbol checked ds = Some (Inr (res, c')) \<Longrightarrow> set checked \<subseteq> set c'"
proof (induction n ge h self symbol checked and n ge h self symbol checked ds
    arbitrary: res c' and res c' rule: changed_changed_loop.induct)
  case (1 ge h self symbol checked)
  then show ?case by simp
next
  case (2 n ge h self symbol checked)
  note prem = "2.prems"
  show ?case
  proof (cases "module_of h self")
    case None
    with prem show ?thesis by (simp split: if_splits)
  next
    case (Some mo)
    note mo = this
    show ?thesis
    proof (cases mo)
      case None
      with mo prem show ?thesis by (simp split: if_splits)
    next
      case (Some m)
      define myname where "myname = lower (name (h m) @ ''.'' @ name (h self))"
      show ?thesis
      proof (cases "\<not> isinstance (h self) Module \<and> isinstance (h self) Executable \<and>
            myname \<notin> set checked \<and>
            u_get_assignments_in (h self) (u_parameters (h self)) symbol \<noteq> RTrue")
        case True
        show ?thesis
        proof (cases "dependencies (h self)")
          case (DepList ds)
          with True mo Some prem show ?thesis
            by (auto simp: Let_def myname_def split: if_splits)
        next
          case (DepDict deps)
          with True mo Some prem
          have p: "changed_loop n ge h self symbol (checked @ [myname]) (concat (map snd deps)) =
              Some (Inr (res, c'))"
            by (simp add: Let_def myname_def)
          have "set (checked @ [myname]) \<subseteq> set c'"
            using "2.IH" [OF _ _ mo Some myname_def _ _ DepDict p] True by simp
          then show ?thesis by simp
        qed
      next
        case False
        with mo Some prem show ?thesis
          by (auto simp: Let_def myname_def split: if_splits simp del: changed_loop.simps)
      qed
    qed
  qed
next
  case (3 n ge h self symbol checked)
  then show ?case by simp
next
  case (4 n ge h self symbol checked dependency rest)
  note prem = "4.prems"
  show ?case
  proof (cases "module_of h self")
    case None
    with prem show ?thesis by simp
  next
    case (Some mo)
    note mo = this
    show ?thesis
    proof (cases mo)
      case None
      with mo prem show ?thesis by simp
    next
      case (Some m)
      note m = this
      show ?thesis
      proof (cases "parent (h m)")
        case None
        with mo m prem show ?thesis by simp
      next
        case (Some registry)
        note reg = this
        show ?thesis
        proof (cases "external_name h dependency")
          case None
          with mo m reg prem show ?thesis by simp
        next
          case (Some en)
          note en = this
          show ?thesis
          proof (cases en)
            case (Inl e)
            with mo m reg en prem show ?thesis by simp
          next
            case (Inr ename)
            note ename = this
            show ?thesis
            proof (cases "ge registry ename")
              case None
              with mo m reg en ename prem
              have p: "changed_loop n ge h self symbol (checked @ [ename]) rest = Some (Inr (res, c'))"
                by simp
              have "set (checked @ [ename]) \<subseteq> set c'"
                using "4.IH"(1) [OF mo m reg en ename None p] .
              then show ?thesis by simp
            next
              case (Some iexec)
              note iexec = this
              show ?thesis
              proof (cases "changed n ge h iexec symbol checked")
                case None
                with mo m reg en ename iexec prem show ?thesis by simp
              next
                case (Some y)
                show ?thesis
                proof (cases y)
                  case (Inl e)
                  with mo m reg en ename iexec Some prem show ?thesis by simp
                next
                  case (Inr rc)
                  obtain r1 c1 where rc: "rc = (r1, c1)" by (cases rc)
                  from Some Inr rc have y: "changed n ge h iexec symbol checked = Some (Inr (r1, c1))"
                    by simp
                  have g1: "set checked \<subseteq> set c1"
                    using "4.IH"(2) [OF mo m reg en ename iexec y] .
                  show ?thesis
                  proof (cases "r1 \<noteq> Some []")
                    case True
                    with mo m reg en ename iexec y prem have "c' = c1" by simp
                    with g1 show ?thesis by simp
                  next
                    case False
                    with mo m reg en ename iexec y prem
                    have p: "changed_loop n ge h self symbol (c1 @ [ename]) rest = Some (Inr (res, c'))"
                      by simp
                    from False have r: "r1 = Some []" by simp
                    have "set (c1 @ [ename]) \<subseteq> set c'"
                      using "4.IH"(3) [OF mo m reg en ename iexec Some Inr rc [symmetric] _ p] r
                      by simp
                    with g1 show ?thesis by auto
                  qed
                qed
              qed
            qed
          qed
        qed
      qed
    qed
  qed
qed


text \<open>
  Termination. The executables the registry can return are finitely many, so are their
  names; every call that goes on to its dependencies first adds its own name to
  \<open>checked\<close>, which never shrinks, so the number of names not yet checked bounds the
  depth of the calls.
\<close>

lemma card_unchecked_mono:
  assumes "finite N" and "set c \<subseteq> set c2"
  shows "card (N - set c2) \<le> card (N - set c)"
  using assms by (intro card_mono) auto

lemma changed_loop_terminates:
  assumes walks: "\<And>r. module_of h r \<noteq> None"
    and reg: "\<And>p s r. ge p s = Some r \<Longrightarrow> r \<in> R"
    and fin: "finite N"
    and IH: "\<And>r c. r \<in> R \<Longrightarrow> card (N - set c) < k \<Longrightarrow>
               \<exists>n x. changed n ge h r symbol c = Some x"
  shows "card (N - set c) < k \<Longrightarrow> \<exists>n x. changed_loop n ge h self symbol c ds = Some x"
proof (induction ds arbitrary: c)
  case Nil
  have "changed_loop 0 ge h self symbol c [] = Some (Inr (None, c))" by simp
  then show ?case by blast
next
  case (Cons d rest)
  from walks [of self] obtain mo where mo: "module_of h self = Some mo" by blast
  show ?case
  proof (cases mo)
    case None
    with mo have "changed_loop 0 ge h self symbol c (d # rest) = Some (Inl AttributeError)"
      by simp
    then show ?thesis by blast
  next
    case (Some m)
    note m = this
    show ?thesis
    proof (cases "parent (h m)")
      case None
      with mo m have "changed_loop 0 ge h self symbol c (d # rest) = Some (Inl AttributeError)"
        by simp
      then show ?thesis by blast
    next
      case (Some registry)
      note rg = this
      from walks [of d] have "external_name h d \<noteq> None"
        by (auto simp: external_name_def split: option.splits)
      then obtain en where en: "external_name h d = Some en" by blast
      show ?thesis
      proof (cases en)
        case (Inl e)
        with mo m rg en have "changed_loop 0 ge h self symbol c (d # rest) = Some (Inl e)"
          by simp
        then show ?thesis by blast
      next
        case (Inr ename)
        note ename = this
        show ?thesis
        proof (cases "ge registry ename")
          case None
          have "card (N - set (c @ [ename])) \<le> card (N - set c)"
            by (rule card_unchecked_mono [OF fin]) auto
          with Cons.prems have "card (N - set (c @ [ename])) < k" by simp
          from Cons.IH [OF this] obtain n x where
            "changed_loop n ge h self symbol (c @ [ename]) rest = Some x" by blast
          with mo m rg en ename None
          have "changed_loop n ge h self symbol c (d # rest) = Some x" by simp
          then show ?thesis by blast
        next
          case (Some iexec)
          note iexec = this
          from reg [OF iexec] have "iexec \<in> R" .
          from IH [OF this Cons.prems] obtain n1 y where
            y: "changed n1 ge h iexec symbol c = Some y" by blast
          show ?thesis
          proof (cases y)
            case (Inl e)
            with mo m rg en ename iexec y
            have "changed_loop n1 ge h self symbol c (d # rest) = Some (Inl e)" by simp
            then show ?thesis by blast
          next
            case (Inr rc)
            obtain r1 c1 where rc: "rc = (r1, c1)" by (cases rc)
            from y Inr rc have y1: "changed n1 ge h iexec symbol c = Some (Inr (r1, c1))"
              by simp
            show ?thesis
            proof (cases "r1 \<noteq> Some []")
              case True
              with mo m rg en ename iexec y1
              have "changed_loop n1 ge h self symbol c (d # rest) = Some (Inr (Some ename, c1))"
                by simp
              then show ?thesis by blast
            next
              case False
              from changed_grows(1) [OF y1] have "set c \<subseteq> set (c1 @ [ename])" by auto
              from card_unchecked_mono [OF fin this] Cons.prems
              have "card (N - set (c1 @ [ename])) < k" by simp
              from Cons.IH [OF this] obtain n2 x where
                x: "changed_loop n2 ge h self symbol (c1 @ [ename]) rest = Some x" by blast
              have a: "changed (max n1 n2) ge h iexec symbol c = Some (Inr (r1, c1))"
                by (rule changed_mono [OF _ y1]) simp
              have b: "changed_loop (max n1 n2) ge h self symbol (c1 @ [ename]) rest = Some x"
                by (rule changed_loop_mono [OF _ x]) simp
              from mo m rg en ename iexec a b False
              have "changed_loop (max n1 n2) ge h self symbol c (d # rest) = Some x" by simp
              then show ?thesis by blast
            qed
          qed
        qed
      qed
    qed
  qed
qed

lemma changed_terminates_aux:
  assumes walks: "\<And>r. module_of h r \<noteq> None"
    and reg: "\<And>p s r. ge p s = Some r \<Longrightarrow> r \<in> R"
    and fin: "finite R"
  shows "r \<in> R \<Longrightarrow> \<exists>n x. changed n ge h r symbol c = Some x"
proof (induction "card (myname_of h ` R - set c)" arbitrary: r c rule: less_induct)
  case less
  let ?N = "myname_of h ` R"
  from fin have finN: "finite ?N" by simp
  from walks [of r] obtain mo where mo: "module_of h r = Some mo" by blast
  show ?case
  proof (cases "isinstance (h r) Module \<or> \<not> isinstance (h r) Executable")
    case True
    then have "\<exists>x. changed (Suc 0) ge h r symbol c = Some x" by auto
    then show ?thesis by blast
  next
    case False
    note ex = this
    show ?thesis
    proof (cases mo)
      case None
      with mo ex have "changed (Suc 0) ge h r symbol c = Some (Inl AttributeError)" by simp
      then show ?thesis by blast
    next
      case (Some m)
      define myname where "myname = lower (name (h m) @ ''.'' @ name (h r))"
      from mo Some have mn: "myname_of h r = myname"
        by (simp add: myname_of_def myname_def)
      show ?thesis
      proof (cases "myname \<notin> set c \<and>
          u_get_assignments_in (h r) (u_parameters (h r)) symbol \<noteq> RTrue")
        case False
        with mo Some ex have "\<exists>x. changed (Suc 0) ge h r symbol c = Some x"
          by (auto simp: Let_def myname_def simp del: changed_loop.simps)
        then show ?thesis by blast
      next
        case True
        show ?thesis
        proof (cases "dependencies (h r)")
          case (DepList ds)
          with True mo Some ex have "\<exists>x. changed (Suc 0) ge h r symbol c = Some x"
            by (auto simp: Let_def myname_def)
          then show ?thesis by blast
        next
          case (DepDict deps)
          from less.prems mn have "myname \<in> ?N" by force
          with True have inN: "myname \<in> ?N - set c" by simp
          have eq: "?N - set (c @ [myname]) = (?N - set c) - {myname}" by auto
          from finN have "finite (?N - set c)" by simp
          from card_Diff1_less [OF this inN]
          have lt: "card (?N - set (c @ [myname])) < card (?N - set c)"
            unfolding eq .
          have "\<exists>n x. changed_loop n ge h r symbol (c @ [myname]) (concat (map snd deps)) = Some x"
          proof (rule changed_loop_terminates [OF walks reg finN _ lt])
            fix r' c'
            assume "r' \<in> R" and "card (?N - set c') < card (?N - set c)"
            then show "\<exists>n x. changed n ge h r' symbol c' = Some x"
              using less.hyps by blast
          qed
          then obtain n x where
            "changed_loop n ge h r symbol (c @ [myname]) (concat (map snd deps)) = Some x"
            by blast
          with True mo Some ex DepDict have "changed (Suc n) ge h r symbol c = Some x"
            by (simp add: Let_def myname_def del: changed_loop.simps)
          then show ?thesis by blast
        qed
      qed
    qed
  qed
qed


text \<open>
  Claim C8. When the registry can return only finitely many executables and every
  walk up the \<^verbatim>\<open>parent\<close> references ends (the property \<^verbatim>\<open>module\<close> returns),
  \<^verbatim>\<open>changed(symbol, checked)\<close> returns or raises on every executable, whatever the
  calls between the executables are: some depth of calls is enough, and every greater
  depth gives the same outcome.
\<close>

theorem changed_terminates:
  assumes "finite {r. \<exists>p s. ge p s = Some r}" and "\<forall>r. module_of h r \<noteq> None"
  shows "\<exists>n x. \<forall>k\<ge>n. changed k ge h self symbol checked = Some x"
proof -
  let ?R = "insert self {r. \<exists>p s. ge p s = Some r}"
  have walks: "\<And>r. module_of h r \<noteq> None" using assms(2) by blast
  have reg: "\<And>p s r. ge p s = Some r \<Longrightarrow> r \<in> ?R" by blast
  have fin: "finite ?R" using assms(1) by simp
  have "self \<in> ?R" by simp
  have "\<exists>n x. changed n ge h self symbol checked = Some x"
    by (rule changed_terminates_aux [where R = "?R"]) (use walks fin in auto)
  then obtain n x where nx: "changed n ge h self symbol checked = Some x" by blast
  have "\<forall>k\<ge>n. changed k ge h self symbol checked = Some x"
    using changed_mono [OF _ nx] by blast
  then show ?thesis by blast
qed

lemma call_heap_other:
  "r \<notin> {0, 2, 3, 6, 7} \<Longrightarrow> call_heap r = CodeElement_init Object [] None None"
  by (simp add: call_heap_def)

lemma call_heap_walks: "module_of call_heap r \<noteq> None"
proof (cases "r \<in> {0, 2, 3, 6, 7}")
  case True
  have "module_of call_heap 0 = Some (Some 0)"
    by (simp add: module_of_def module_walk.simps call_heap_at CodeElement_init_def isinstance_def)
  with True call_heap_modules show ?thesis by auto
next
  case False
  have "module_walk call_heap (Some r) = Some None"
    by (subst module_walk.simps)
      (simp add: call_heap_other [OF False] CodeElement_init_def isinstance_def module_walk.simps)
  then show ?thesis
    by (simp add: module_of_def call_heap_other [OF False] CodeElement_init_def)
qed

lemma call_registry_finite: "finite {r. \<exists>p s. call_registry p s = Some r}"
proof -
  have "{r. \<exists>p s. call_registry p s = Some r} \<subseteq> {2, 3}"
    by (auto simp: call_registry_def split: if_splits)
  then show ?thesis by (rule finite_subset) simp
qed

lemma call_heap_changed_x:
  "changed (Suc (Suc (Suc 0))) call_registry call_heap 2 ''x'' [] =
     Some (Inr (Some ''m.b'', [''m.a'', ''m.b'']))"
  by (simp add: call_heap_modules call_heap_names call_heap_at CodeElement_init_def
      isinstance_def lower_def lower_char_def u_get_assignments_in_def call_registry_def)

theorem changed_terminates_witness:
  "finite {r. \<exists>p s. call_registry p s = Some r} \<and>
   (\<forall>r. module_of call_heap r \<noteq> None) \<and>
   dependencies (call_heap 2) = DepDict [(''b'', [6])] \<and>
   external_name call_heap 6 = Some (Inr ''m.b'') \<and> call_registry 9 ''m.b'' = Some 3 \<and>
   dependencies (call_heap 3) = DepDict [(''a'', [7])] \<and>
   external_name call_heap 7 = Some (Inr ''m.a'') \<and> call_registry 9 ''m.a'' = Some 2 \<and>
   (\<exists>n x. \<forall>k\<ge>n. changed k call_registry call_heap 2 ''x'' [] = Some x)"
proof -
  have w: "\<forall>r. module_of call_heap r \<noteq> None" using call_heap_walks by blast
  have d: "dependencies (call_heap 2) = DepDict [(''b'', [6])]"
    "dependencies (call_heap 3) = DepDict [(''a'', [7])]"
    by (simp_all add: call_heap_at CodeElement_init_def)
  have g: "call_registry 9 ''m.b'' = Some 3" "call_registry 9 ''m.a'' = Some 2"
    by (simp_all add: call_registry_def)
  from changed_terminates [OF call_registry_finite w, of 2 "''x''" "[]"]
  have t: "\<exists>n x. \<forall>k\<ge>n. changed k call_registry call_heap 2 ''x'' [] = Some x" .
  from call_registry_finite w d g call_heap_names t show ?thesis by blast
qed

text \<open>
  Claim C4 does not hold of the code: in the loop over the dependencies the result of
  the recursive call is compared with the empty string, and \<^verbatim>\<open>changed\<close> returns a
  qualified name or \<^verbatim>\<open>None\<close>, never the empty string, so the first dependency the
  registry resolves is reported whether or not it changes the symbol. Neither \<^verbatim>\<open>a\<close>
  nor \<^verbatim>\<open>b\<close> assigns to \<^verbatim>\<open>x\<close>, and \<^verbatim>\<open>a.changed("x")\<close> returns \<^verbatim>\<open>m.b\<close>. The direct case
  works: \<^verbatim>\<open>b\<close> assigns to \<^verbatim>\<open>y%z\<close> and \<^verbatim>\<open>b.changed("y")\<close> returns \<^verbatim>\<open>m.b\<close>.
\<close>

theorem changed_reports_unchanged_symbol:
  "\<not> assigned ''x'' (u_assignments (call_heap 2)) \<and>
   \<not> assigned ''x'' (u_assignments (call_heap 3)) \<and>
   changed (Suc (Suc (Suc 0))) call_registry call_heap 2 ''x'' [] =
     Some (Inr (Some ''m.b'', [''m.a'', ''m.b''])) \<and>
   changed (Suc 0) call_registry call_heap 3 ''y'' [] = Some (Inr (Some ''m.b'', []))"
proof -
  have a: "\<not> assigned ''x'' (u_assignments (call_heap 2))"
    "\<not> assigned ''x'' (u_assignments (call_heap 3))"
    by (simp_all add: call_heap_at CodeElement_init_def lower_def lower_char_def)
  have y: "changed (Suc 0) call_registry call_heap 3 ''y'' [] = Some (Inr (Some ''m.b'', []))"
    by (simp add: call_heap_modules call_heap_at CodeElement_init_def
      isinstance_def lower_def lower_char_def u_get_assignments_in_def)
  from a y call_heap_changed_x show ?thesis by blast
qed

subsection \<open>Embedded elements\<close>

lemma box_heap_at:
  "box_heap 0 = (CodeElement_init Module ''m'' None None)
             \<lparr>end := 200, types := [(''box'', 5), (''inner'', 3)]\<rparr>"
  "box_heap 5 = (CodeElement_init CustomType ''box'' None (Some 0))\<lparr>start := 20, end := 150\<rparr>"
  "box_heap 3 = (CodeElement_init CustomType ''inner'' None (Some 0))\<lparr>start := 40, end := 60\<rparr>"
  by (simp_all add: box_heap_def)

lemma box_update:
  "update_embedded box_heap 0 ''types'' =
     (box_heap(3 := (box_heap 3)\<lparr>parent := Some 5\<rparr>), Some AttributeError)"
  by (simp add: update_embedded_def collection_def box_heap_at CodeElement_init_def dict_of_def
      find_embedded_parent_def has_types_def isinstance_def Let_def)


lemma find_container_Some:
  "find_container h e es = Some p \<Longrightarrow>
     p \<in> snd ` set es \<and> start e > start (h p) \<and> end e < end (h p)"
  by (induction es) (auto split: if_splits)

lemma find_container_None_entry:
  "find_container h e es = None \<Longrightarrow> (k, q) \<in> set es \<Longrightarrow>
     \<not> (start e > start (h q) \<and> end e < end (h q))"
  by (induction es) (auto split: if_splits)

lemma find_container_None:
  "find_container h e es = None \<Longrightarrow> q \<in> snd ` set es \<Longrightarrow>
     \<not> (start e > start (h q) \<and> end e < end (h q))"
  using find_container_None_entry by fastforce

lemma find_embedded_parent_Some:
  assumes "find_embedded_parent h self r = Some p"
  shows "p \<in> top_refs h self \<and> inside h r p"
proof (cases "find_container h (h r) (types (h self))")
  case None
  with assms have "find_container h (h r) (executables (h self)) = Some p"
    by (simp add: find_embedded_parent_def)
  from find_container_Some [OF this] show ?thesis
    by (auto simp: top_refs_def inside_def)
next
  case (Some q)
  with assms have "find_container h (h r) (types (h self)) = Some p"
    by (simp add: find_embedded_parent_def)
  from find_container_Some [OF this] show ?thesis
    by (auto simp: top_refs_def inside_def)
qed

lemma find_embedded_parent_None:
  assumes "find_embedded_parent h self r = None" and "q \<in> top_refs h self"
  shows "\<not> inside h r q"
proof -
  from assms(1) have t: "find_container h (h r) (types (h self)) = None"
    and e: "find_container h (h r) (executables (h self)) = None"
    by (auto simp: find_embedded_parent_def split: option.splits)
  from assms(2) have "q \<in> snd ` set (types (h self)) \<or> q \<in> snd ` set (executables (h self))"
    by (auto simp: top_refs_def)
  with find_container_None [OF t] find_container_None [OF e] show ?thesis
    by (auto simp: inside_def)
qed

lemma loop_step_none:
  assumes "map_of (dict_of (h self) a) key = Some r"
    and "find_embedded_parent h self r = None"
  shows "update_embedded_loop h self a (key # rest) = update_embedded_loop h self a rest"
  using assms by simp

lemma loop_step_found:
  assumes "map_of (dict_of (h self) a) key = Some r"
    and "find_embedded_parent h self r = Some p"
    and "update_embedded_loop h self a (key # rest) = (h', None)"
  shows "update_embedded_loop (embed_step h self a key r p) self a rest = (h', None)"
proof (cases "a = ''types''")
  case True
  with assms show ?thesis
    by (simp add: embed_step_def Let_def put_nested_def nested_of_def split: if_splits)
next
  case False
  with assms show ?thesis
    by (simp add: embed_step_def Let_def put_nested_def nested_of_def split: if_splits)
qed

lemma embed_step_at:
  assumes "r \<noteq> p" "p \<noteq> self" "r \<noteq> self"
  shows "embed_step h self a key r p self = del_item (h self) a key"
    and "embed_step h self a key r p p =
           put_nested (h p) a (AList.update key r (nested_of (h p) a))"
    and "embed_step h self a key r p r = (h r)\<lparr>parent := Some p\<rparr>"
    and "x \<noteq> self \<Longrightarrow> x \<noteq> p \<Longrightarrow> x \<noteq> r \<Longrightarrow> embed_step h self a key r p x = h x"
  using assms by (simp_all add: embed_step_def Let_def)


lemma set_delete: "set (AList.delete k al) = {e \<in> set al. fst e \<noteq> k}"
  by (auto simp: AList.delete_eq)

lemma distinct_snd_delete:
  "distinct (map snd al) \<Longrightarrow> distinct (map snd (AList.delete k al))"
  by (simp add: AList.delete_eq distinct_map_filter)

lemma dict_of_top:
  assumes "a = ''types'' \<or> a = ''executables''"
  shows "snd ` set (dict_of (h self) a) \<subseteq> top_refs h self"
  using assms by (auto simp: dict_of_def top_refs_def)

lemma dict_is_nested:
  assumes "a = ''types'' \<or> a = ''executables''"
  shows "dict_of x a = nested_of x a"
  using assms by (auto simp: dict_of_def nested_of_def)

text \<open>The facts of one round that moves \<open>r\<close> under \<open>key\<close> into \<open>p\<close>.\<close>

lemma embed_step_facts:
  assumes a: "a = ''types'' \<or> a = ''executables''"
    and mr: "(key, r) \<in> set (dict_of (h self) a)"
    and fp: "find_embedded_parent h self r = Some p"
    and so: "self \<notin> top_refs h self"
    and dk: "distinct (map fst (dict_of (h self) a))"
  defines "h3 \<equiv> embed_step h self a key r p"
  shows "start (h3 x) = start (h x)" "end (h3 x) = end (h x)"
    and "dict_of (h3 self) a = AList.delete key (dict_of (h self) a)"
    and "top_refs h3 self \<subseteq> top_refs h self"
    and "y \<in> top_refs h self \<Longrightarrow> y \<noteq> r \<Longrightarrow> y \<in> top_refs h3 self"
    and "x \<noteq> r \<Longrightarrow> parent (h3 x) = parent (h x)"
    and "parent (h3 r) = Some p"
    and "x \<noteq> self \<Longrightarrow> k \<noteq> key \<Longrightarrow> map_of (nested_of (h3 x) a) k = map_of (nested_of (h x) a) k"
    and "map_of (nested_of (h3 p) a) key = Some r"
proof -
  from find_embedded_parent_Some [OF fp] have pt: "p \<in> top_refs h self" and ins: "inside h r p"
    by simp_all
  from ins have rp: "r \<noteq> p" by (auto simp: inside_def)
  from pt so have ps: "p \<noteq> self" by auto
  from mr dict_of_top [OF a, of h self] have "r \<in> top_refs h self" by force
  with so have rs: "r \<noteq> self" by auto
  note at = embed_step_at [OF rp ps rs, where h = h and a = a and key = key]
  have cases: "x = self \<or> x = p \<or> x = r \<or> (x \<noteq> self \<and> x \<noteq> p \<and> x \<noteq> r)" by blast
  show "start (h3 x) = start (h x)"
    using cases at a unfolding h3_def
    by (auto simp: del_item_def put_nested_def)
  show "end (h3 x) = end (h x)"
    using cases at a unfolding h3_def
    by (auto simp: del_item_def put_nested_def)
  show d3: "dict_of (h3 self) a = AList.delete key (dict_of (h self) a)"
    using at(1) a unfolding h3_def by (auto simp: del_item_def dict_of_def)
  have other: "a = ''types'' \<Longrightarrow> executables (h3 self) = executables (h self)"
    "a = ''executables'' \<Longrightarrow> types (h3 self) = types (h self)"
    using at(1) unfolding h3_def by (simp_all add: del_item_def)
  show "top_refs h3 self \<subseteq> top_refs h self"
    using a d3 other by (auto simp: top_refs_def dict_of_def set_delete)
  show "y \<in> top_refs h3 self" if y: "y \<in> top_refs h self" and yr: "y \<noteq> r"
  proof -
    have keep: "(k', y) \<in> set (dict_of (h self) a) \<Longrightarrow> (k', y) \<in> set (dict_of (h3 self) a)" for k'
    proof -
      assume e: "(k', y) \<in> set (dict_of (h self) a)"
      have "k' \<noteq> key"
      proof
        assume "k' = key"
        with e mr dk have "y = r" by (metis eq_key_imp_eq_value)
        with yr show False by simp
      qed
      with e show ?thesis by (simp add: d3 set_delete)
    qed
    from a show ?thesis
    proof
      assume t: "a = ''types''"
      from y have "(\<exists>k'. (k', y) \<in> set (types (h self))) \<or> (\<exists>k'. (k', y) \<in> set (executables (h self)))"
        by (auto simp: top_refs_def)
      then show ?thesis
      proof
        assume "\<exists>k'. (k', y) \<in> set (types (h self))"
        then obtain k' where "(k', y) \<in> set (dict_of (h self) a)" by (auto simp: dict_of_def t)
        from keep [OF this] show ?thesis by (force simp: top_refs_def dict_of_def t)
      next
        assume "\<exists>k'. (k', y) \<in> set (executables (h self))"
        then show ?thesis using other(1) [OF t] by (force simp: top_refs_def)
      qed
    next
      assume t: "a = ''executables''"
      from y have "(\<exists>k'. (k', y) \<in> set (types (h self))) \<or> (\<exists>k'. (k', y) \<in> set (executables (h self)))"
        by (auto simp: top_refs_def)
      then show ?thesis
      proof
        assume "\<exists>k'. (k', y) \<in> set (executables (h self))"
        then obtain k' where "(k', y) \<in> set (dict_of (h self) a)" by (auto simp: dict_of_def t)
        from keep [OF this] show ?thesis by (force simp: top_refs_def dict_of_def t)
      next
        assume "\<exists>k'. (k', y) \<in> set (types (h self))"
        then show ?thesis using other(2) [OF t] by (force simp: top_refs_def)
      qed
    qed
  qed
  show "parent (h3 x) = parent (h x)" if "x \<noteq> r"
    using cases at a that unfolding h3_def
    by (auto simp: del_item_def put_nested_def)
  show "parent (h3 r) = Some p"
    using at(3) unfolding h3_def by simp
  show "map_of (nested_of (h3 x) a) k = map_of (nested_of (h x) a) k" if "x \<noteq> self" "k \<noteq> key"
    using cases at a that unfolding h3_def
    by (auto simp: put_nested_def nested_of_def AList.update_conv')
  show "map_of (nested_of (h3 p) a) key = Some r"
    using at(2) a unfolding h3_def
    by (auto simp: put_nested_def nested_of_def AList.update_conv')
qed


lemma inside_trans: "inside h x r \<Longrightarrow> inside h r p \<Longrightarrow> inside h x p"
  by (auto simp: inside_def)

lemma inside_same_spans:
  assumes "\<And>x. start (h' x) = start (h x)" and "\<And>x. end (h' x) = end (h x)"
  shows "inside h' r p = inside h r p"
  using assms by (simp add: inside_def)

text \<open>
  The loop of \<^verbatim>\<open>update_embedded\<close> over the keys \<open>ks\<close> of a collection with distinct
  keys and distinct instances, when it raises nothing.
\<close>

lemma update_embedded_loop_inv:
  assumes a: "a = ''types'' \<or> a = ''executables''"
  shows "update_embedded_loop h self a ks = (h', None) \<Longrightarrow>
         self \<notin> top_refs h self \<Longrightarrow>
         distinct (map fst (dict_of (h self) a)) \<Longrightarrow>
         distinct (map snd (dict_of (h self) a)) \<Longrightarrow>
         distinct ks \<Longrightarrow>
         set ks \<subseteq> fst ` set (dict_of (h self) a) \<Longrightarrow>
         loop_frame h h' self a ks \<and> loop_moved h h' self a ks"
proof (induction ks arbitrary: h)
  case Nil
  then show ?case by (simp add: loop_frame_def loop_moved_def)
next
  case (Cons key rest)
  note run = Cons.prems(1) and so = Cons.prems(2) and dk = Cons.prems(3)
    and dr = Cons.prems(4) and dks = Cons.prems(5) and present = Cons.prems(6)
  let ?D = "dict_of (h self) a"
  from present obtain r where mr: "(key, r) \<in> set ?D" by auto
  with dk have mo: "map_of ?D key = Some r" by simp
  have only: "\<And>r'. (key, r') \<in> set ?D \<Longrightarrow> r' = r"
    using mr dk by (metis eq_key_imp_eq_value)
  from dks have krest: "key \<notin> set rest" and drest: "distinct rest" by simp_all
  show ?case
  proof (cases "find_embedded_parent h self r")
    case None
    from run loop_step_none [OF mo None]
    have run': "update_embedded_loop h self a rest = (h', None)" by simp
    from present have "set rest \<subseteq> fst ` set ?D" by simp
    from Cons.IH [OF run' so dk dr drest this]
    have fr: "loop_frame h h' self a rest" and mv: "loop_moved h h' self a rest" by simp_all
    from fr have "loop_frame h h' self a (key # rest)"
      by (simp add: loop_frame_def)
    moreover have "loop_moved h h' self a (key # rest)"
      unfolding loop_moved_def
    proof (intro allI impI)
      fix k r0
      assume k: "k \<in> set (key # rest)" and e: "(k, r0) \<in> set ?D"
        and c: "\<exists>q\<in>top_refs h self. inside h r0 q"
      show "k \<notin> fst ` set (dict_of (h' self) a) \<and>
        (\<exists>p\<in>top_refs h self. inside h r0 p \<and> parent (h' r0) = Some p \<and>
           map_of (nested_of (h' p) a) k = Some r0)"
      proof (cases "k = key")
        case True
        with e only have "r0 = r" by simp
        with c find_embedded_parent_None [OF None] show ?thesis by blast
      next
        case False
        with k have "k \<in> set rest" by simp
        with mv e c show ?thesis unfolding loop_moved_def by blast
      qed
    qed
    ultimately show ?thesis by simp
  next
    case (Some p)
    define h3 where "h3 = embed_step h self a key r p"
    note f = embed_step_facts [OF a mr Some so dk, folded h3_def]
    from find_embedded_parent_Some [OF Some]
    have pt: "p \<in> top_refs h self" and ins: "inside h r p" by simp_all
    from ins have rp: "r \<noteq> p" by (auto simp: inside_def)
    from pt so have ps: "p \<noteq> self" by auto
    have ins3: "inside h3 x y = inside h x y" for x y
      by (rule inside_same_spans) (rule f)+
    from loop_step_found [OF mo Some run]
    have run': "update_embedded_loop h3 self a rest = (h', None)" by (simp add: h3_def)
    from so f(4) have so3: "self \<notin> top_refs h3 self" by auto
    from dk have dk3: "distinct (map fst (dict_of (h3 self) a))"
      by (simp add: f(3) AList.distinct_delete)
    from dr have dr3: "distinct (map snd (dict_of (h3 self) a))"
      by (simp add: f(3) distinct_snd_delete)
    have sub3: "set (dict_of (h3 self) a) \<subseteq> set ?D"
      by (auto simp: f(3) set_delete)
    have keep3: "(k, v) \<in> set ?D \<Longrightarrow> k \<noteq> key \<Longrightarrow> (k, v) \<in> set (dict_of (h3 self) a)" for k v
      by (simp add: f(3) set_delete)
    have nokey3: "(key, v) \<notin> set (dict_of (h3 self) a)" for v
      by (simp add: f(3) set_delete)
    have present3: "set rest \<subseteq> fst ` set (dict_of (h3 self) a)"
    proof
      fix k assume kr: "k \<in> set rest"
      with present obtain v where "(k, v) \<in> set ?D" by auto
      moreover from kr krest have "k \<noteq> key" by auto
      ultimately have "(k, v) \<in> set (dict_of (h3 self) a)" by (rule keep3)
      then show "k \<in> fst ` set (dict_of (h3 self) a)" by force
    qed
    from Cons.IH [OF run' so3 dk3 dr3 drest present3]
    have fr: "loop_frame h3 h' self a rest" and mv: "loop_moved h3 h' self a rest" by simp_all
    from fr have F1: "\<And>x. start (h' x) = start (h3 x)" "\<And>x. end (h' x) = end (h3 x)"
      and F2: "set (dict_of (h' self) a) \<subseteq> set (dict_of (h3 self) a)"
      and F3: "top_refs h' self \<subseteq> top_refs h3 self"
      and F4: "\<And>x. (\<forall>k\<in>set rest. (k, x) \<notin> set (dict_of (h3 self) a)) \<Longrightarrow>
                 parent (h' x) = parent (h3 x)"
      and F5: "\<And>x k. x \<noteq> self \<Longrightarrow> k \<notin> set rest \<Longrightarrow>
                 map_of (nested_of (h' x) a) k = map_of (nested_of (h3 x) a) k"
      unfolding loop_frame_def by blast+
    have frame: "loop_frame h h' self a (key # rest)"
      unfolding loop_frame_def
    proof (intro conjI allI impI)
      fix x
      show "start (h' x) = start (h x)" by (simp add: F1 f)
      show "end (h' x) = end (h x)" by (simp add: F1 f)
    next
      show "set (dict_of (h' self) a) \<subseteq> set ?D" using F2 sub3 by blast
    next
      show "top_refs h' self \<subseteq> top_refs h self" using F3 f(4) by blast
    next
      fix x
      assume no: "\<forall>k\<in>set (key # rest). (k, x) \<notin> set ?D"
      with mr have "x \<noteq> r" by auto
      then have "parent (h3 x) = parent (h x)" by (rule f(6))
      moreover from no sub3 have "\<forall>k\<in>set rest. (k, x) \<notin> set (dict_of (h3 self) a)" by auto
      then have "parent (h' x) = parent (h3 x)" by (rule F4)
      ultimately show "parent (h' x) = parent (h x)" by simp
    next
      fix x k
      assume "x \<noteq> self" and "k \<notin> set (key # rest)"
      then show "map_of (nested_of (h' x) a) k = map_of (nested_of (h x) a) k"
        by (simp add: F5 f(8))
    qed
    have moved: "loop_moved h h' self a (key # rest)"
      unfolding loop_moved_def
    proof (intro allI impI)
      fix k r0
      assume k: "k \<in> set (key # rest)" and e: "(k, r0) \<in> set ?D"
        and c: "\<exists>q\<in>top_refs h self. inside h r0 q"
      show "k \<notin> fst ` set (dict_of (h' self) a) \<and>
        (\<exists>p\<in>top_refs h self. inside h r0 p \<and> parent (h' r0) = Some p \<and>
           map_of (nested_of (h' p) a) k = Some r0)"
      proof (cases "k = key")
        case True
        with e only have r0: "r0 = r" by simp
        have gone: "key \<notin> fst ` set (dict_of (h' self) a)"
          using F2 nokey3 by force
        have "\<forall>k'\<in>set rest. (k', r) \<notin> set (dict_of (h3 self) a)"
        proof
          fix k' assume "k' \<in> set rest"
          show "(k', r) \<notin> set (dict_of (h3 self) a)"
          proof
            assume in3: "(k', r) \<in> set (dict_of (h3 self) a)"
            with sub3 have "(k', r) \<in> set ?D" by auto
            with mr dr have "k' = key"
              by (metis (no_types, lifting) distinct_map inj_onD snd_conv prod.inject)
            with in3 nokey3 show False by simp
          qed
        qed
        from F4 [OF this] f(7) have par: "parent (h' r) = Some p" by simp
        from F5 [OF ps krest] f(9) have nest: "map_of (nested_of (h' p) a) key = Some r"
          by simp
        from gone pt ins par nest True r0 show ?thesis by blast
      next
        case False
        with k have kr: "k \<in> set rest" by simp
        from e False have e3: "(k, r0) \<in> set (dict_of (h3 self) a)" by (rule keep3)
        from c obtain q where q: "q \<in> top_refs h self" and qi: "inside h r0 q" by blast
        have c3: "\<exists>q'\<in>top_refs h3 self. inside h3 r0 q'"
        proof (cases "q = r")
          case True
          from qi True ins have "inside h r0 p" by (auto intro: inside_trans)
          moreover from f(5) [OF pt] rp have "p \<in> top_refs h3 self" by auto
          ultimately show ?thesis by (auto simp: ins3)
        next
          case False
          from f(5) [OF q False] qi show ?thesis by (auto simp: ins3)
        qed
        from mv kr e3 c3
        have "k \<notin> fst ` set (dict_of (h' self) a) \<and>
          (\<exists>p'\<in>top_refs h3 self. inside h3 r0 p' \<and> parent (h' r0) = Some p' \<and>
             map_of (nested_of (h' p') a) k = Some r0)"
          unfolding loop_moved_def by blast
        with f(4) show ?thesis by (auto simp: ins3)
      qed
    qed
    from frame moved show ?thesis by simp
  qed
qed


lemma find_embedded_parent_iff:
  "find_embedded_parent h self r \<noteq> None \<longleftrightarrow> (\<exists>q\<in>top_refs h self. inside h r q)"
proof (cases "find_embedded_parent h self r")
  case None
  with find_embedded_parent_None [OF None] show ?thesis by auto
next
  case (Some p)
  with find_embedded_parent_Some [OF Some] show ?thesis by auto
qed

lemma find_container_same_spans:
  assumes "\<And>x. start (h2 x) = start (h x)" and "\<And>x. end (h2 x) = end (h x)"
  shows "find_container h2 (h2 r) es = find_container h (h r) es"
  by (induction es) (auto simp: assms)

lemma embed_step_other:
  assumes a: "a = ''types'' \<or> a = ''executables''"
    and mr: "(key, r) \<in> set (dict_of (h self) a)"
    and fp: "find_embedded_parent h self r = Some p"
    and so: "self \<notin> top_refs h self"
  shows "a = ''types'' \<Longrightarrow> executables (embed_step h self a key r p self) = executables (h self)"
    and "a = ''executables'' \<Longrightarrow> types (embed_step h self a key r p self) = types (h self)"
proof -
  from find_embedded_parent_Some [OF fp] have pt: "p \<in> top_refs h self" and ins: "inside h r p"
    by simp_all
  from ins have rp: "r \<noteq> p" by (auto simp: inside_def)
  from pt so have ps: "p \<noteq> self" by auto
  from mr dict_of_top [OF a, of h self] have "r \<in> top_refs h self" by force
  with so have rs: "r \<noteq> self" by auto
  note at = embed_step_at [OF rp ps rs, where h = h and a = a and key = key]
  show "a = ''types'' \<Longrightarrow> executables (embed_step h self a key r p self) = executables (h self)"
    using at(1) by (simp add: del_item_def)
  show "a = ''executables'' \<Longrightarrow> types (embed_step h self a key r p self) = types (h self)"
    using at(1) by (simp add: del_item_def)
qed

lemma remaining_head: "remaining h self a (key # rest) key = dict_of (h self) a"
  by (simp add: remaining_def)

lemma container_at_head:
  assumes "a = ''types'' \<or> a = ''executables''"
  shows "container_at h self a (key # rest) key r = find_embedded_parent h self r"
  using assms
proof
  assume "a = ''types''"
  then show ?thesis
    by (simp add: container_at_def remaining_head find_embedded_parent_def dict_of_def)
next
  assume "a = ''executables''"
  then show ?thesis
    by (simp add: container_at_def remaining_head find_embedded_parent_def dict_of_def
        split: option.splits)
qed

text \<open>
  A round that finds no container leaves the collection as it is, and a round that
  moves the element under \<open>key0\<close> deletes that entry: either way what remains when a
  later key is reached is the same whether counted from before or after the round.
\<close>

lemma remaining_skip:
  assumes dk: "distinct (map fst (dict_of (h self) a))"
    and mr: "(key0, r0) \<in> set (dict_of (h self) a)"
    and none: "find_embedded_parent h self r0 = None"
    and k: "k \<noteq> key0"
  shows "remaining h self a (key0 # rest) k = remaining h self a rest k"
proof -
  have same: "(k' \<in> set (takeWhile (\<lambda>j. j \<noteq> k) (key0 # rest)) \<and>
                find_embedded_parent h self x \<noteq> None) =
              (k' \<in> set (takeWhile (\<lambda>j. j \<noteq> k) rest) \<and>
                find_embedded_parent h self x \<noteq> None)"
    if e: "(k', x) \<in> set (dict_of (h self) a)" for k' x
  proof (cases "k' = key0")
    case True
    with e mr dk have "x = r0" by (metis eq_key_imp_eq_value)
    with none show ?thesis by simp
  next
    case False
    with k show ?thesis by auto
  qed
  show ?thesis
    unfolding remaining_def by (rule filter_cong [OF refl]) (use same in auto)
qed



lemma embed_step_containers:
  assumes a: "a = ''types'' \<or> a = ''executables''"
    and mr: "(key0, r0) \<in> set (dict_of (h self) a)"
    and fp: "find_embedded_parent h self r0 = Some p"
    and so: "self \<notin> top_refs h self"
    and dk: "distinct (map fst (dict_of (h self) a))"
  shows "find_embedded_parent (embed_step h self a key0 r0 p) self x \<noteq> None \<longleftrightarrow>
         find_embedded_parent h self x \<noteq> None"
proof -
  define h3 where "h3 = embed_step h self a key0 r0 p"
  note f = embed_step_facts [OF a mr fp so dk, folded h3_def]
  from find_embedded_parent_Some [OF fp]
  have pt: "p \<in> top_refs h self" and ins: "inside h r0 p" by simp_all
  from ins have rp: "r0 \<noteq> p" by (auto simp: inside_def)
  have ins3: "inside h3 u v = inside h u v" for u v
    by (rule inside_same_spans) (rule f)+
  have "(\<exists>q\<in>top_refs h3 self. inside h3 x q) \<longleftrightarrow> (\<exists>q\<in>top_refs h self. inside h x q)"
  proof
    assume "\<exists>q\<in>top_refs h3 self. inside h3 x q"
    with f(4) show "\<exists>q\<in>top_refs h self. inside h x q" by (auto simp: ins3)
  next
    assume "\<exists>q\<in>top_refs h self. inside h x q"
    then obtain q where q: "q \<in> top_refs h self" and qi: "inside h x q" by blast
    show "\<exists>q\<in>top_refs h3 self. inside h3 x q"
    proof (cases "q = r0")
      case True
      from qi True ins have "inside h x p" by (auto intro: inside_trans)
      moreover from f(5) [OF pt] rp have "p \<in> top_refs h3 self" by auto
      ultimately show ?thesis by (auto simp: ins3)
    next
      case False
      from f(5) [OF q False] qi show ?thesis by (auto simp: ins3)
    qed
  qed
  then show ?thesis unfolding find_embedded_parent_iff h3_def .
qed

lemma remaining_step:
  assumes a: "a = ''types'' \<or> a = ''executables''"
    and mr: "(key0, r0) \<in> set (dict_of (h self) a)"
    and fp: "find_embedded_parent h self r0 = Some p"
    and so: "self \<notin> top_refs h self"
    and dk: "distinct (map fst (dict_of (h self) a))"
    and k: "k \<noteq> key0"
  shows "remaining (embed_step h self a key0 r0 p) self a rest k =
         remaining h self a (key0 # rest) k"
proof -
  define h3 where "h3 = embed_step h self a key0 r0 p"
  note f = embed_step_facts [OF a mr fp so dk, folded h3_def]
  note c = embed_step_containers [OF a mr fp so dk, folded h3_def]
  let ?D = "dict_of (h self) a"
  have d3: "dict_of (h3 self) a = filter (\<lambda>e. fst e \<noteq> key0) ?D"
    by (auto simp: f(3) AList.delete_eq intro: filter_cong)
  have same: "(fst e \<noteq> key0 \<and>
        (case e of (k', x) \<Rightarrow> \<not> (k' \<in> set (takeWhile (\<lambda>j. j \<noteq> k) rest) \<and>
            find_embedded_parent h3 self x \<noteq> None))) =
        (case e of (k', x) \<Rightarrow> \<not> (k' \<in> set (takeWhile (\<lambda>j. j \<noteq> k) (key0 # rest)) \<and>
            find_embedded_parent h self x \<noteq> None))"
    if e: "e \<in> set ?D" for e
  proof -
    obtain k' x where kx: "e = (k', x)" by (cases e)
    show ?thesis
    proof (cases "k' = key0")
      case True
      with e kx mr dk have "x = r0" by (metis eq_key_imp_eq_value)
      with fp True k kx show ?thesis by simp
    next
      case False
      with k c [of x] kx show ?thesis by auto
    qed
  qed
  have "remaining h3 self a rest k =
      filter (\<lambda>e. fst e \<noteq> key0 \<and>
        (case e of (k', x) \<Rightarrow> \<not> (k' \<in> set (takeWhile (\<lambda>j. j \<noteq> k) rest) \<and>
            find_embedded_parent h3 self x \<noteq> None))) ?D"
    by (simp add: remaining_def d3 conj_commute)
  also have "\<dots> = remaining h self a (key0 # rest) k"
    unfolding remaining_def by (rule filter_cong [OF refl same])
  finally show ?thesis by (simp add: h3_def)
qed

lemma container_at_skip:
  assumes dk: "distinct (map fst (dict_of (h self) a))"
    and mr: "(key0, r0) \<in> set (dict_of (h self) a)"
    and none: "find_embedded_parent h self r0 = None"
    and k: "k \<noteq> key0"
  shows "container_at h self a (key0 # rest) k r = container_at h self a rest k r"
  by (simp only: container_at_def remaining_skip [OF dk mr none k])

lemma container_at_step:
  assumes a: "a = ''types'' \<or> a = ''executables''"
    and mr: "(key0, r0) \<in> set (dict_of (h self) a)"
    and fp: "find_embedded_parent h self r0 = Some p"
    and so: "self \<notin> top_refs h self"
    and dk: "distinct (map fst (dict_of (h self) a))"
    and k: "k \<noteq> key0"
  shows "container_at (embed_step h self a key0 r0 p) self a rest k r =
         container_at h self a (key0 # rest) k r"
proof -
  define h3 where "h3 = embed_step h self a key0 r0 p"
  note f = embed_step_facts [OF a mr fp so dk, folded h3_def]
  note o = embed_step_other [OF a mr fp so, folded h3_def]
  note rm = remaining_step [OF a mr fp so dk k, folded h3_def]
  have fc: "find_container h3 (h3 r) es = find_container h (h r) es" for es
    by (rule find_container_same_spans) (rule f)+
  from a have "container_at h3 self a rest k r = container_at h self a (key0 # rest) k r"
  proof
    assume t: "a = ''types''"
    show ?thesis by (simp only: container_at_def fc rm o(1) [OF t]) (simp add: t)
  next
    assume t: "a = ''executables''"
    show ?thesis by (simp only: container_at_def fc rm o(2) [OF t]) (simp add: t)
  qed
  then show ?thesis by (simp add: h3_def)
qed


text \<open>
  The parent an element gets is the container \<^verbatim>\<open>find_embedded_parent\<close> finds when the
  loop reaches its key.
\<close>

lemma update_embedded_loop_parent:
  assumes a: "a = ''types'' \<or> a = ''executables''"
  shows "update_embedded_loop h self a ks = (h', None) \<Longrightarrow>
         self \<notin> top_refs h self \<Longrightarrow>
         distinct (map fst (dict_of (h self) a)) \<Longrightarrow>
         distinct (map snd (dict_of (h self) a)) \<Longrightarrow>
         distinct ks \<Longrightarrow>
         set ks \<subseteq> fst ` set (dict_of (h self) a) \<Longrightarrow>
         k \<in> set ks \<Longrightarrow> (k, r) \<in> set (dict_of (h self) a) \<Longrightarrow>
         find_embedded_parent h self r \<noteq> None \<Longrightarrow>
         parent (h' r) = container_at h self a ks k r"
proof (induction ks arbitrary: h)
  case Nil
  then show ?case by simp
next
  case (Cons key rest)
  note run = Cons.prems(1) and so = Cons.prems(2) and dk = Cons.prems(3)
    and dr = Cons.prems(4) and dks = Cons.prems(5) and present = Cons.prems(6)
    and kin = Cons.prems(7) and e = Cons.prems(8) and cont = Cons.prems(9)
  let ?D = "dict_of (h self) a"
  from present obtain r0 where mr: "(key, r0) \<in> set ?D" by auto
  with dk have mo: "map_of ?D key = Some r0" by simp
  have only: "\<And>r'. (key, r') \<in> set ?D \<Longrightarrow> r' = r0"
    using mr dk by (metis eq_key_imp_eq_value)
  from dks have krest: "key \<notin> set rest" and drest: "distinct rest" by simp_all
  show ?case
  proof (cases "find_embedded_parent h self r0")
    case None
    from run loop_step_none [OF mo None]
    have run': "update_embedded_loop h self a rest = (h', None)" by simp
    from present have pr: "set rest \<subseteq> fst ` set ?D" by simp
    have kk: "k \<noteq> key"
    proof
      assume "k = key"
      with e only have "r = r0" by simp
      with cont None show False by simp
    qed
    with kin have "k \<in> set rest" by simp
    from Cons.IH [OF run' so dk dr drest pr this e cont]
    have "parent (h' r) = container_at h self a rest k r" .
    with container_at_skip [OF dk mr None kk] show ?thesis by simp
  next
    case (Some p)
    define h3 where "h3 = embed_step h self a key r0 p"
    note f = embed_step_facts [OF a mr Some so dk, folded h3_def]
    from find_embedded_parent_Some [OF Some]
    have pt: "p \<in> top_refs h self" and ins: "inside h r0 p" by simp_all
    from loop_step_found [OF mo Some run]
    have run': "update_embedded_loop h3 self a rest = (h', None)" by (simp add: h3_def)
    from so f(4) have so3: "self \<notin> top_refs h3 self" by auto
    from dk have dk3: "distinct (map fst (dict_of (h3 self) a))"
      by (simp add: f(3) AList.distinct_delete)
    from dr have dr3: "distinct (map snd (dict_of (h3 self) a))"
      by (simp add: f(3) distinct_snd_delete)
    have sub3: "set (dict_of (h3 self) a) \<subseteq> set ?D"
      by (auto simp: f(3) set_delete)
    have keep3: "(j, v) \<in> set ?D \<Longrightarrow> j \<noteq> key \<Longrightarrow> (j, v) \<in> set (dict_of (h3 self) a)" for j v
      by (simp add: f(3) set_delete)
    have nokey3: "(key, v) \<notin> set (dict_of (h3 self) a)" for v
      by (simp add: f(3) set_delete)
    have present3: "set rest \<subseteq> fst ` set (dict_of (h3 self) a)"
    proof
      fix j assume jr: "j \<in> set rest"
      with present obtain v where "(j, v) \<in> set ?D" by auto
      moreover from jr krest have "j \<noteq> key" by auto
      ultimately have "(j, v) \<in> set (dict_of (h3 self) a)" by (rule keep3)
      then show "j \<in> fst ` set (dict_of (h3 self) a)" by force
    qed
    show ?thesis
    proof (cases "k = key")
      case True
      with e only have r0: "r = r0" by simp
      from update_embedded_loop_inv [OF a run' so3 dk3 dr3 drest present3]
      have fr: "loop_frame h3 h' self a rest" by simp
      have "\<forall>k'\<in>set rest. (k', r0) \<notin> set (dict_of (h3 self) a)"
      proof
        fix k' assume "k' \<in> set rest"
        show "(k', r0) \<notin> set (dict_of (h3 self) a)"
        proof
          assume in3: "(k', r0) \<in> set (dict_of (h3 self) a)"
          with sub3 have "(k', r0) \<in> set ?D" by auto
          with mr dr have "k' = key"
            by (metis (no_types, lifting) distinct_map inj_onD snd_conv prod.inject)
          with in3 nokey3 show False by simp
        qed
      qed
      with fr have "parent (h' r0) = parent (h3 r0)" unfolding loop_frame_def by blast
      with f(7) have "parent (h' r0) = Some p" by simp
      with container_at_head [OF a, of h self key rest r0] Some True r0 show ?thesis by simp
    next
      case False
      with kin have kr: "k \<in> set rest" by simp
      from e False have e3: "(k, r) \<in> set (dict_of (h3 self) a)" by (rule keep3)
      from cont embed_step_containers [OF a mr Some so dk, of r]
      have c3: "find_embedded_parent h3 self r \<noteq> None" by (simp add: h3_def)
      from Cons.IH [OF run' so3 dk3 dr3 drest present3 kr e3 c3]
      have "parent (h' r) = container_at h3 self a rest k r" .
      with container_at_step [OF a mr Some so dk False, of rest r] show ?thesis
        by (simp add: h3_def)
    qed
  qed
qed

text \<open>
  Claim C5 as stated fails: for a type whose span lies strictly inside the span of
  another top-level type, \<^verbatim>\<open>update_embedded("types")\<close> sets the parent and then raises
  \<^verbatim>\<open>AttributeError\<close> on \<^verbatim>\<open>new_parent.types\<close> (a \<^verbatim>\<open>CustomType\<close> has no nested types);
  the type is still in the collection of the module and in no collection of the
  containing type.
\<close>

theorem update_embedded_type_in_type_counterexample:
  "(''inner'', 3) \<in> set (types (box_heap 0)) \<and> 5 \<in> top_refs box_heap 0 \<and>
   inside box_heap 3 5 \<and> cls (box_heap 5) = CustomType \<and>
   snd (update_embedded box_heap 0 ''types'') = Some AttributeError \<and>
   (''inner'', 3) \<in> set (types (fst (update_embedded box_heap 0 ''types'') 0)) \<and>
   types (fst (update_embedded box_heap 0 ''types'') 5) = [] \<and>
   executables (fst (update_embedded box_heap 0 ''types'') 5) = []"
  by (simp add: box_update) (simp add: box_heap_at CodeElement_init_def top_refs_def inside_def)

text \<open>
  Claim C5, amended. Let the collection be \<^verbatim>\<open>types\<close> or \<^verbatim>\<open>executables\<close>, a dict that
  holds distinct instances, the module itself not among its own types and executables,
  and let \<^verbatim>\<open>update_embedded\<close> return without raising. Then for every element of the
  collection whose span lies strictly inside the span of some top-level type or
  executable: its key and the element are no longer in the collection of the module;
  the parent reference of the element is the container that \<^verbatim>\<open>find_embedded_parent\<close>
  finds when the loop reaches the key of the element, that is the first entry whose
  span strictly contains the span of the element, types before executables, among
  the entries the module still holds then (the entries of the collection under
  earlier keys whose span lay strictly inside a top-level span have been moved out);
  that container was a top-level type or executable of the module before the call,
  and its nested collection of the same name holds the element under the same key.
\<close>

theorem update_embedded_moves:
  assumes a: "attribute = ''types'' \<or> attribute = ''executables''"
    and ok: "update_embedded h self attribute = (h', None)"
    and so: "self \<notin> top_refs h self"
    and dk: "distinct (map fst (dict_of (h self) attribute))"
    and dr: "distinct (map snd (dict_of (h self) attribute))"
    and el: "(key, r) \<in> set (dict_of (h self) attribute)"
    and cont: "\<exists>q\<in>top_refs h self. inside h r q"
  shows "key \<notin> fst ` set (dict_of (h' self) attribute) \<and>
         r \<notin> snd ` set (dict_of (h' self) attribute) \<and>
         (\<exists>p\<in>top_refs h self.
            container_at h self attribute (map fst (dict_of (h self) attribute)) key r = Some p \<and>
            inside h r p \<and> parent (h' r) = Some p \<and>
            map_of (nested_of (h' p) attribute) key = Some r)"
proof -
  let ?D = "dict_of (h self) attribute"
  from a have c: "collection (h self) attribute = Inr (Entries ?D)"
    by (auto simp: collection_def dict_of_def)
  with ok have run: "update_embedded_loop h self attribute (map fst ?D) = (h', None)"
    by (simp add: update_embedded_def)
  from update_embedded_loop_inv [OF a run so dk dr dk]
  have fr: "loop_frame h h' self attribute (map fst ?D)"
    and mv: "loop_moved h h' self attribute (map fst ?D)" by simp_all
  from el have k: "key \<in> set (map fst ?D)" by force
  have fe: "find_embedded_parent h self r \<noteq> None"
    unfolding find_embedded_parent_iff by (rule cont)
  have par: "parent (h' r) = container_at h self attribute (map fst ?D) key r"
    by (rule update_embedded_loop_parent [OF a run so dk dr dk _ k el fe]) simp
  from mv k el cont
  have m: "key \<notin> fst ` set (dict_of (h' self) attribute) \<and>
         (\<exists>p\<in>top_refs h self. inside h r p \<and> parent (h' r) = Some p \<and>
            map_of (nested_of (h' p) attribute) key = Some r)"
    unfolding loop_moved_def by blast
  from fr have sub: "set (dict_of (h' self) attribute) \<subseteq> set ?D"
    unfolding loop_frame_def by blast
  have "r \<notin> snd ` set (dict_of (h' self) attribute)"
  proof
    assume "r \<in> snd ` set (dict_of (h' self) attribute)"
    then obtain k' where k': "(k', r) \<in> set (dict_of (h' self) attribute)" by force
    with sub have "(k', r) \<in> set ?D" by auto
    with el dr have "k' = key"
      by (metis (no_types, lifting) distinct_map inj_onD snd_conv prod.inject)
    with k' m show False by force
  qed
  with m par show ?thesis by auto
qed

lemma nest_heap_at:
  "nest_heap 0 = (CodeElement_init Module ''m'' None None)
             \<lparr>end := 200, types := [(''inner'', 3)],
              executables := [(''helper'', 4), (''outer'', 2)]\<rparr>"
  "nest_heap 2 = (CodeElement_init Subroutine ''outer'' None (Some 0))\<lparr>start := 20, end := 150\<rparr>"
  "nest_heap 3 = (CodeElement_init CustomType ''inner'' None (Some 0))\<lparr>start := 40, end := 60\<rparr>"
  "nest_heap 4 = (CodeElement_init Subroutine ''helper'' None (Some 0))\<lparr>start := 70, end := 120\<rparr>"
  by (simp_all add: nest_heap_def)

lemma nest_heap_top: "top_refs nest_heap 0 = {3, 4, 2}"
  by (simp add: top_refs_def nest_heap_at CodeElement_init_def)

lemma nest_heap_inside:
  "inside nest_heap 3 2" "inside nest_heap 4 2"
  "\<not> inside nest_heap 3 3" "\<not> inside nest_heap 3 4"
  "\<not> inside nest_heap 4 3" "\<not> inside nest_heap 4 4"
  by (simp_all add: inside_def nest_heap_at CodeElement_init_def)

lemma nest_heap_returns:
  "snd (update_embedded nest_heap 0 ''types'') = None"
  "snd (update_embedded nest_heap 0 ''executables'') = None"
  by (simp_all add: update_embedded_def collection_def nest_heap_at CodeElement_init_def
      dict_of_def find_embedded_parent_def has_types_def has_executables_def isinstance_def
      Let_def del_item_def)

lemma chain_heap_at:
  "chain_heap 0 = (CodeElement_init Module ''m'' None None)
             \<lparr>end := 200, executables := [(''mid'', 2), (''outer'', 3), (''leaf'', 4)]\<rparr>"
  "chain_heap 2 = (CodeElement_init Subroutine ''mid'' None (Some 0))\<lparr>start := 30, end := 100\<rparr>"
  "chain_heap 3 = (CodeElement_init Subroutine ''outer'' None (Some 0))\<lparr>start := 10, end := 150\<rparr>"
  "chain_heap 4 = (CodeElement_init Subroutine ''leaf'' None (Some 0))\<lparr>start := 40, end := 60\<rparr>"
  by (simp_all add: chain_heap_def)

lemma chain_heap_top: "top_refs chain_heap 0 = {2, 3, 4}"
  by (simp add: top_refs_def chain_heap_at CodeElement_init_def)

lemma chain_heap_dict:
  "dict_of (chain_heap 0) ''executables'' = [(''mid'', 2), (''outer'', 3), (''leaf'', 4)]"
  by (simp add: dict_of_def chain_heap_at CodeElement_init_def)

lemma chain_heap_inside:
  "inside chain_heap 4 2" "inside chain_heap 4 3" "inside chain_heap 2 3"
  by (simp_all add: inside_def chain_heap_at CodeElement_init_def)

lemma chain_heap_first: "find_embedded_parent chain_heap 0 4 = Some 2"
  by (simp add: find_embedded_parent_def chain_heap_at CodeElement_init_def)

lemma chain_heap_found:
  "find_embedded_parent chain_heap 0 2 = Some 3" "find_embedded_parent chain_heap 0 3 = None"
  by (simp_all add: find_embedded_parent_def chain_heap_at CodeElement_init_def)

lemma chain_heap_remaining:
  "remaining chain_heap 0 ''executables'' [''mid'', ''outer'', ''leaf''] ''leaf'' =
     [(''outer'', 3), (''leaf'', 4)]"
  by (simp add: remaining_def chain_heap_dict chain_heap_found)

lemma chain_heap_container:
  "container_at chain_heap 0 ''executables'' [''mid'', ''outer'', ''leaf''] ''leaf'' 4 = Some 3"
  by (simp add: container_at_def chain_heap_remaining chain_heap_at CodeElement_init_def)

lemma chain_heap_returns:
  "snd (update_embedded chain_heap 0 ''executables'') = None"
  by (simp add: update_embedded_def collection_def chain_heap_at CodeElement_init_def
      dict_of_def find_embedded_parent_def has_types_def has_executables_def isinstance_def
      Let_def del_item_def)

text \<open>
  In the chain of three subroutines \<^verbatim>\<open>find_embedded_parent\<close> on the module as it is
  before the call finds \<^verbatim>\<open>mid\<close> for \<^verbatim>\<open>leaf\<close>; when the loop reaches \<^verbatim>\<open>leaf\<close>, \<^verbatim>\<open>mid\<close> has
  been moved into \<^verbatim>\<open>outer\<close>, and \<^verbatim>\<open>leaf\<close> gets \<^verbatim>\<open>outer\<close> as its parent.
\<close>

theorem update_embedded_moves_witness:
  "snd (update_embedded nest_heap 0 ''types'') = None \<and>
   0 \<notin> top_refs nest_heap 0 \<and>
   (''inner'', 3) \<in> set (dict_of (nest_heap 0) ''types'') \<and> inside nest_heap 3 2 \<and>
   ''inner'' \<notin> fst ` set (types (fst (update_embedded nest_heap 0 ''types'') 0)) \<and>
   parent (fst (update_embedded nest_heap 0 ''types'') 3) = Some 2 \<and>
   map_of (types (fst (update_embedded nest_heap 0 ''types'') 2)) ''inner'' = Some 3 \<and>
   snd (update_embedded nest_heap 0 ''executables'') = None \<and>
   (''helper'', 4) \<in> set (dict_of (nest_heap 0) ''executables'') \<and> inside nest_heap 4 2 \<and>
   ''helper'' \<notin> fst ` set (executables (fst (update_embedded nest_heap 0 ''executables'') 0)) \<and>
   parent (fst (update_embedded nest_heap 0 ''executables'') 4) = Some 2 \<and>
   map_of (executables (fst (update_embedded nest_heap 0 ''executables'') 2)) ''helper'' = Some 4 \<and>
   snd (update_embedded chain_heap 0 ''executables'') = None \<and>
   0 \<notin> top_refs chain_heap 0 \<and>
   (''leaf'', 4) \<in> set (dict_of (chain_heap 0) ''executables'') \<and>
   inside chain_heap 4 2 \<and> inside chain_heap 4 3 \<and>
   find_embedded_parent chain_heap 0 4 = Some 2 \<and>
   container_at chain_heap 0 ''executables''
     (map fst (dict_of (chain_heap 0) ''executables'')) ''leaf'' 4 = Some 3 \<and>
   ''leaf'' \<notin> fst ` set (executables (fst (update_embedded chain_heap 0 ''executables'') 0)) \<and>
   parent (fst (update_embedded chain_heap 0 ''executables'') 4) = Some 3 \<and>
   map_of (executables (fst (update_embedded chain_heap 0 ''executables'') 3)) ''leaf'' = Some 4"
proof -
  define ht where "ht = fst (update_embedded nest_heap 0 ''types'')"
  define hx where "hx = fst (update_embedded nest_heap 0 ''executables'')"
  define hc where "hc = fst (update_embedded chain_heap 0 ''executables'')"
  have okt: "update_embedded nest_heap 0 ''types'' = (ht, None)"
    by (simp add: ht_def prod_eq_iff nest_heap_returns)
  have okx: "update_embedded nest_heap 0 ''executables'' = (hx, None)"
    by (simp add: hx_def prod_eq_iff nest_heap_returns)
  have okc: "update_embedded chain_heap 0 ''executables'' = (hc, None)"
    by (simp add: hc_def prod_eq_iff chain_heap_returns)
  have so: "0 \<notin> top_refs nest_heap 0" by (simp add: nest_heap_top)
  have soc: "0 \<notin> top_refs chain_heap 0" by (simp add: chain_heap_top)
  have dt: "dict_of (nest_heap 0) ''types'' = [(''inner'', 3)]"
    and dx: "dict_of (nest_heap 0) ''executables'' = [(''helper'', 4), (''outer'', 2)]"
    by (simp_all add: dict_of_def nest_heap_at CodeElement_init_def)
  have ct: "\<exists>q\<in>top_refs nest_heap 0. inside nest_heap 3 q"
    and cx: "\<exists>q\<in>top_refs nest_heap 0. inside nest_heap 4 q"
    by (simp_all add: nest_heap_top nest_heap_inside)
  have cc: "\<exists>q\<in>top_refs chain_heap 0. inside chain_heap 4 q"
    by (simp add: chain_heap_top chain_heap_inside)
  have c: "container_at chain_heap 0 ''executables''
     (map fst (dict_of (chain_heap 0) ''executables'')) ''leaf'' 4 = Some 3"
    by (simp add: chain_heap_dict chain_heap_container)
  have t: "''inner'' \<notin> fst ` set (dict_of (ht 0) ''types'') \<and>
         3 \<notin> snd ` set (dict_of (ht 0) ''types'') \<and>
         (\<exists>p\<in>top_refs nest_heap 0.
            container_at nest_heap 0 ''types''
              (map fst (dict_of (nest_heap 0) ''types'')) ''inner'' 3 = Some p \<and>
            inside nest_heap 3 p \<and> parent (ht 3) = Some p \<and>
            map_of (nested_of (ht p) ''types'') ''inner'' = Some 3)"
    by (rule update_embedded_moves [OF _ okt so _ _ _ ct]) (simp_all add: dt)
  have x: "''helper'' \<notin> fst ` set (dict_of (hx 0) ''executables'') \<and>
         4 \<notin> snd ` set (dict_of (hx 0) ''executables'') \<and>
         (\<exists>p\<in>top_refs nest_heap 0.
            container_at nest_heap 0 ''executables''
              (map fst (dict_of (nest_heap 0) ''executables'')) ''helper'' 4 = Some p \<and>
            inside nest_heap 4 p \<and> parent (hx 4) = Some p \<and>
            map_of (nested_of (hx p) ''executables'') ''helper'' = Some 4)"
    by (rule update_embedded_moves [OF _ okx so _ _ _ cx]) (simp_all add: dx)
  have l: "''leaf'' \<notin> fst ` set (dict_of (hc 0) ''executables'') \<and>
         4 \<notin> snd ` set (dict_of (hc 0) ''executables'') \<and>
         (\<exists>p\<in>top_refs chain_heap 0.
            container_at chain_heap 0 ''executables''
              (map fst (dict_of (chain_heap 0) ''executables'')) ''leaf'' 4 = Some p \<and>
            inside chain_heap 4 p \<and> parent (hc 4) = Some p \<and>
            map_of (nested_of (hc p) ''executables'') ''leaf'' = Some 4)"
    by (rule update_embedded_moves [OF _ okc soc _ _ _ cc]) (simp_all add: chain_heap_dict)
  from t have t1: "''inner'' \<notin> fst ` set (types (ht 0))" by (simp add: dict_of_def)
  from t obtain p where "inside nest_heap 3 p" "p \<in> top_refs nest_heap 0"
    "parent (ht 3) = Some p" "map_of (nested_of (ht p) ''types'') ''inner'' = Some 3" by blast
  then have t2: "parent (ht 3) = Some 2 \<and> map_of (types (ht 2)) ''inner'' = Some 3"
    by (auto simp: nest_heap_top nest_heap_inside nested_of_def)
  from x have x1: "''helper'' \<notin> fst ` set (executables (hx 0))" by (simp add: dict_of_def)
  from x obtain q where "inside nest_heap 4 q" "q \<in> top_refs nest_heap 0"
    "parent (hx 4) = Some q" "map_of (nested_of (hx q) ''executables'') ''helper'' = Some 4"
    by blast
  then have x2: "parent (hx 4) = Some 2 \<and> map_of (executables (hx 2)) ''helper'' = Some 4"
    by (auto simp: nest_heap_top nest_heap_inside nested_of_def)
  from l have l1: "''leaf'' \<notin> fst ` set (executables (hc 0))" by (simp add: dict_of_def)
  from l c have l2: "parent (hc 4) = Some 3 \<and> map_of (executables (hc 3)) ''leaf'' = Some 4"
    by (auto simp: nested_of_def)
  have nest: "snd (update_embedded nest_heap 0 ''types'') = None \<and>
      0 \<notin> top_refs nest_heap 0 \<and>
      (''inner'', 3) \<in> set (dict_of (nest_heap 0) ''types'') \<and> inside nest_heap 3 2 \<and>
      ''inner'' \<notin> fst ` set (types (ht 0)) \<and>
      parent (ht 3) = Some 2 \<and> map_of (types (ht 2)) ''inner'' = Some 3 \<and>
      snd (update_embedded nest_heap 0 ''executables'') = None \<and>
      (''helper'', 4) \<in> set (dict_of (nest_heap 0) ''executables'') \<and> inside nest_heap 4 2 \<and>
      ''helper'' \<notin> fst ` set (executables (hx 0)) \<and>
      parent (hx 4) = Some 2 \<and> map_of (executables (hx 2)) ''helper'' = Some 4"
    using t1 t2 x1 x2 so by (simp add: nest_heap_returns dt dx nest_heap_inside)
  have chain: "snd (update_embedded chain_heap 0 ''executables'') = None \<and>
      0 \<notin> top_refs chain_heap 0 \<and>
      (''leaf'', 4) \<in> set (dict_of (chain_heap 0) ''executables'') \<and>
      inside chain_heap 4 2 \<and> inside chain_heap 4 3 \<and>
      find_embedded_parent chain_heap 0 4 = Some 2 \<and>
      container_at chain_heap 0 ''executables''
        (map fst (dict_of (chain_heap 0) ''executables'')) ''leaf'' 4 = Some 3 \<and>
      ''leaf'' \<notin> fst ` set (executables (hc 0)) \<and>
      parent (hc 4) = Some 3 \<and> map_of (executables (hc 3)) ''leaf'' = Some 4"
    using l1 l2 soc c
    by (simp add: chain_heap_returns chain_heap_dict chain_heap_inside chain_heap_first)
  from nest chain show ?thesis unfolding ht_def hx_def hc_def by simp
qed

end
